theory Spec2Isabelle
  imports Complex_Main "HOL-Library.Word"
begin

section \<open>Single-precision floating point\<close>

text \<open>
  Every numeric variable of \<^verbatim>\<open>main\<close> is a C++ \<^verbatim>\<open>float\<close>: an IEEE 754 binary32
  value.  Each operation is taken to round its exact result once, to the nearest binary32
  value, ties to even (no wider intermediate format, no fused operation).  A value is a
  finite real number, an infinity or a NaN.  The two zeros are identified: nothing in the
  program reads the sign of a zero (the only zero divisor is converted from an unsigned
  counter, so it is the positive zero).

  Every finite binary32 value is an integer multiple of \<open>2 ^ - 149\<close>, the smallest
  subnormal.  Rounding therefore works in these units: a magnitude below \<open>2 ^ 24\<close> units is
  on a grid of spacing one unit (subnormals and the first normal binade), and each doubling
  of the magnitude doubles the spacing.
\<close>

datatype f32 = Fin real | PInf | NInf | NaN

text \<open>The binary logarithm of the grid spacing, in units, at a magnitude of \<open>k\<close> units.\<close>

function binade_shift :: "nat \<Rightarrow> nat" where
  "binade_shift k = (if k < 2 ^ 24 then 0 else binade_shift (k div 2) + 1)"
  by pat_completeness auto
termination by (relation "measure id") auto

declare binade_shift.simps [simp del]

definition binade_of :: "real \<Rightarrow> nat" where
  "binade_of u = binade_shift (nat \<lfloor>\<bar>u\<bar>\<rfloor>)"

text \<open>Round to the nearest integer, a tie to the even one.\<close>

definition rne :: "real \<Rightarrow> int" where
  "rne r = (let f = \<lfloor>r\<rfloor>; d = r - of_int f in
      if d < 1 / 2 then f else if 1 / 2 < d then f + 1 else if even f then f else f + 1)"

definition round_units :: "real \<Rightarrow> int" where
  "round_units u = rne (u / 2 ^ binade_of u) * 2 ^ binade_of u"

text \<open>
  The binary32 result of an operation whose exact result is \<open>q\<close>.  The largest finite
  value is \<open>(2 ^ 24 - 1) * 2 ^ 104\<close>; a result that rounds to \<open>2 ^ 128\<close> (which is
  \<open>2 ^ 277\<close> units) or beyond overflows to an infinity.
\<close>

definition f32_round :: "real \<Rightarrow> f32" where
  "f32_round q = (let r = round_units (q * 2 ^ 149) in
     if 2 ^ 277 \<le> r then PInf else if r \<le> - (2 ^ 277) then NInf
     else Fin (of_int r / 2 ^ 149))"

text \<open>The real numbers that a \<^verbatim>\<open>float\<close> can hold are those that rounding leaves alone.\<close>

definition is_f32 :: "real \<Rightarrow> bool" where
  "is_f32 q = (f32_round q = Fin q)"

fun f32_ok :: "f32 \<Rightarrow> bool" where
  "f32_ok (Fin q) = is_f32 q"
| "f32_ok PInf = True"
| "f32_ok NInf = True"
| "f32_ok NaN = True"

fun f32_neg :: "f32 \<Rightarrow> f32" where
  "f32_neg (Fin a) = Fin (- a)"
| "f32_neg PInf = NInf"
| "f32_neg NInf = PInf"
| "f32_neg NaN = NaN"

fun f32_add :: "f32 \<Rightarrow> f32 \<Rightarrow> f32" where
  "f32_add (Fin a) (Fin b) = f32_round (a + b)"
| "f32_add (Fin a) PInf = PInf"
| "f32_add (Fin a) NInf = NInf"
| "f32_add PInf (Fin b) = PInf"
| "f32_add PInf PInf = PInf"
| "f32_add PInf NInf = NaN"
| "f32_add NInf (Fin b) = NInf"
| "f32_add NInf NInf = NInf"
| "f32_add NInf PInf = NaN"
| "f32_add NaN y = NaN"
| "f32_add x NaN = NaN"

definition f32_sub :: "f32 \<Rightarrow> f32 \<Rightarrow> f32" where
  "f32_sub x y = f32_add x (f32_neg y)"

fun f32_mul :: "f32 \<Rightarrow> f32 \<Rightarrow> f32" where
  "f32_mul (Fin a) (Fin b) = f32_round (a * b)"
| "f32_mul (Fin a) PInf = (if a = 0 then NaN else if 0 < a then PInf else NInf)"
| "f32_mul (Fin a) NInf = (if a = 0 then NaN else if 0 < a then NInf else PInf)"
| "f32_mul PInf (Fin b) = (if b = 0 then NaN else if 0 < b then PInf else NInf)"
| "f32_mul NInf (Fin b) = (if b = 0 then NaN else if 0 < b then NInf else PInf)"
| "f32_mul PInf PInf = PInf"
| "f32_mul PInf NInf = NInf"
| "f32_mul NInf PInf = NInf"
| "f32_mul NInf NInf = PInf"
| "f32_mul NaN y = NaN"
| "f32_mul x NaN = NaN"

text \<open>Division; a zero divisor is the positive zero.\<close>

fun f32_div :: "f32 \<Rightarrow> f32 \<Rightarrow> f32" where
  "f32_div (Fin a) (Fin b) =
     (if b = 0 then (if a = 0 then NaN else if 0 < a then PInf else NInf)
      else f32_round (a / b))"
| "f32_div (Fin a) PInf = Fin 0"
| "f32_div (Fin a) NInf = Fin 0"
| "f32_div PInf (Fin b) = (if 0 \<le> b then PInf else NInf)"
| "f32_div NInf (Fin b) = (if 0 \<le> b then NInf else PInf)"
| "f32_div PInf PInf = NaN"
| "f32_div PInf NInf = NaN"
| "f32_div NInf PInf = NaN"
| "f32_div NInf NInf = NaN"
| "f32_div NaN y = NaN"
| "f32_div x NaN = NaN"

text \<open>The comparisons \<^verbatim>\<open><\<close> and \<^verbatim>\<open>>\<close>: false as soon as an operand is a NaN.\<close>

fun f32_lt :: "f32 \<Rightarrow> f32 \<Rightarrow> bool" where
  "f32_lt (Fin a) (Fin b) = (a < b)"
| "f32_lt (Fin a) PInf = True"
| "f32_lt (Fin a) NInf = False"
| "f32_lt PInf y = False"
| "f32_lt NInf (Fin b) = True"
| "f32_lt NInf PInf = True"
| "f32_lt NInf NInf = False"
| "f32_lt x NaN = False"
| "f32_lt NaN y = False"

definition f32_gt :: "f32 \<Rightarrow> f32 \<Rightarrow> bool" where
  "f32_gt x y = f32_lt y x"

text \<open>The order \<open>\<le>\<close> on the values that are numbers, for the statements.\<close>

fun f32_le :: "f32 \<Rightarrow> f32 \<Rightarrow> bool" where
  "f32_le (Fin a) (Fin b) = (a \<le> b)"
| "f32_le (Fin a) PInf = True"
| "f32_le (Fin a) NInf = False"
| "f32_le PInf (Fin b) = False"
| "f32_le PInf PInf = True"
| "f32_le PInf NInf = False"
| "f32_le NInf (Fin b) = True"
| "f32_le NInf PInf = True"
| "f32_le NInf NInf = True"
| "f32_le x NaN = False"
| "f32_le NaN y = False"

text \<open>Conversions from the integer types: \<^verbatim>\<open>Uint64\<close> and \<^verbatim>\<open>int\<close> to \<^verbatim>\<open>float\<close>.\<close>

definition u64_to_f32 :: "64 word \<Rightarrow> f32" where
  "u64_to_f32 w = f32_round (of_nat (unat w))"

definition int_to_f32 :: "32 word \<Rightarrow> f32" where
  "int_to_f32 w = f32_round (of_int (sint w))"

text \<open>
  The cast \<^verbatim>\<open>(Uint32) x\<close> truncates toward zero.  It is undefined when the truncated
  value is not a \<^verbatim>\<open>Uint32\<close>, and on an infinity or a NaN: \<open>None\<close>.
\<close>

definition trunc :: "real \<Rightarrow> int" where
  "trunc q = (if 0 \<le> q then \<lfloor>q\<rfloor> else \<lceil>q\<rceil>)"

fun f32_to_u32 :: "f32 \<Rightarrow> 32 word option" where
  "f32_to_u32 (Fin q) = (if - 1 < q \<and> q < 2 ^ 32 then Some (word_of_int (trunc q)) else None)"
| "f32_to_u32 PInf = None"
| "f32_to_u32 NInf = None"
| "f32_to_u32 NaN = None"


section \<open>The program\<close>

subsection \<open>Events\<close>

text \<open>
  The scancodes and event types that \<^verbatim>\<open>main\<close> tells apart; every other one carries its
  number.
\<close>

datatype SDL_Scancode =
  SDL_SCANCODE_W | SDL_SCANCODE_S | SDL_SCANCODE_A | SDL_SCANCODE_D | SDL_SCANCODE_other nat

datatype SDL_Event =
  SDL_EVENT_QUIT
| SDL_EVENT_KEY_DOWN SDL_Scancode
| SDL_EVENT_KEY_UP SDL_Scancode
| SDL_EVENT_other nat

subsection \<open>The local variables of \<^verbatim>\<open>main\<close>\<close>

record locals =
  squareX :: f32
  squareY :: f32
  squareSize :: f32
  moveSpeed :: f32
  windowWidth :: f32
  windowHeight :: f32
  movingUp :: bool
  movingDown :: bool
  movingLeft :: bool
  movingRight :: bool
  running :: bool

subsection \<open>Step 4: polling the events\<close>

fun key_down :: "SDL_Scancode \<Rightarrow> locals \<Rightarrow> locals" where
  "key_down SDL_SCANCODE_W v = v\<lparr>movingUp := True\<rparr>"
| "key_down SDL_SCANCODE_S v = v\<lparr>movingDown := True\<rparr>"
| "key_down SDL_SCANCODE_A v = v\<lparr>movingLeft := True\<rparr>"
| "key_down SDL_SCANCODE_D v = v\<lparr>movingRight := True\<rparr>"
| "key_down (SDL_SCANCODE_other n) v = v"

fun key_up :: "SDL_Scancode \<Rightarrow> locals \<Rightarrow> locals" where
  "key_up SDL_SCANCODE_W v = v\<lparr>movingUp := False\<rparr>"
| "key_up SDL_SCANCODE_S v = v\<lparr>movingDown := False\<rparr>"
| "key_up SDL_SCANCODE_A v = v\<lparr>movingLeft := False\<rparr>"
| "key_up SDL_SCANCODE_D v = v\<lparr>movingRight := False\<rparr>"
| "key_up (SDL_SCANCODE_other n) v = v"

text \<open>The body of the \<^verbatim>\<open>switch (event.type)\<close>.\<close>

fun handle_event :: "SDL_Event \<Rightarrow> locals \<Rightarrow> locals" where
  "handle_event SDL_EVENT_QUIT v = v\<lparr>running := False\<rparr>"
| "handle_event (SDL_EVENT_KEY_DOWN sc) v = key_down sc v"
| "handle_event (SDL_EVENT_KEY_UP sc) v = key_up sc v"
| "handle_event (SDL_EVENT_other n) v = v"

text \<open>
  \<^verbatim>\<open>while (SDL_PollEvent(&event))\<close>: the events that the queue yields during one
  frame, handled in the order of their arrival until the queue is empty.
\<close>

fun poll_events :: "SDL_Event list \<Rightarrow> locals \<Rightarrow> locals" where
  "poll_events [] v = v"
| "poll_events (e # es) v = poll_events es (handle_event e v)"

subsection \<open>Step 5: updating the position\<close>

text \<open>The four conditional moves (lines 121 to 124).\<close>

definition apply_movement :: "locals \<Rightarrow> locals" where
  "apply_movement v =
    (let v1 = (if movingUp v then v\<lparr>squareY := f32_sub (squareY v) (moveSpeed v)\<rparr> else v);
         v2 = (if movingDown v1 then v1\<lparr>squareY := f32_add (squareY v1) (moveSpeed v1)\<rparr> else v1);
         v3 = (if movingLeft v2 then v2\<lparr>squareX := f32_sub (squareX v2) (moveSpeed v2)\<rparr> else v2)
     in if movingRight v3 then v3\<lparr>squareX := f32_add (squareX v3) (moveSpeed v3)\<rparr> else v3)"

text \<open>The four clamps (lines 127 to 130).\<close>

definition clamp_to_window :: "locals \<Rightarrow> locals" where
  "clamp_to_window v =
    (let v1 = (if f32_lt (squareX v) (Fin 0) then v\<lparr>squareX := Fin 0\<rparr> else v);
         v2 = (if f32_lt (squareY v1) (Fin 0) then v1\<lparr>squareY := Fin 0\<rparr> else v1);
         v3 = (if f32_gt (f32_add (squareX v2) (squareSize v2)) (windowWidth v2)
               then v2\<lparr>squareX := f32_sub (windowWidth v2) (squareSize v2)\<rparr> else v2)
     in if f32_gt (f32_add (squareY v3) (squareSize v3)) (windowHeight v3)
        then v3\<lparr>squareY := f32_sub (windowHeight v3) (squareSize v3)\<rparr> else v3)"

definition update_position :: "locals \<Rightarrow> locals" where
  "update_position v = clamp_to_window (apply_movement v)"

subsection \<open>Step 6: rendering\<close>

text \<open>The calls of the program into SDL that act on the outside.\<close>

datatype action =
  SDL_Init
| SDL_CreateWindowAndRenderer
| SDL_Log string
| SDL_SetRenderDrawColor "8 word" "8 word" "8 word" "8 word"
| SDL_RenderClear
| SDL_RenderFillRect f32 f32 f32 f32
| SDL_RenderPresent
| SDL_Delay "32 word"
| SDL_DestroyRenderer
| SDL_DestroyWindow
| SDL_Quit

definition render :: "locals \<Rightarrow> action list" where
  "render v =
    [SDL_SetRenderDrawColor 0 0 0 255, SDL_RenderClear,
     SDL_SetRenderDrawColor 255 0 0 255,
     SDL_RenderFillRect (squareX v) (squareY v) (squareSize v) (squareSize v),
     SDL_RenderPresent]"

subsection \<open>Step 7: pacing the frame\<close>

text \<open>
  What the outside supplies during one iteration: the events in the queue, the two readings
  of the performance counter and its frequency.
\<close>

record frame =
  events :: "SDL_Event list"
  frameStart :: "64 word"
  frameEnd :: "64 word"
  perfFrequency :: "64 word"

definition targetFrameTimeMS :: f32 where
  "targetFrameTimeMS = f32_div (Fin 1000) (Fin 60)"

definition elapsedMS :: "frame \<Rightarrow> f32" where
  "elapsedMS f =
     f32_mul (f32_div (u64_to_f32 (frameEnd f - frameStart f)) (u64_to_f32 (perfFrequency f)))
       (Fin 1000)"

text \<open>The ways in which a run yields no result.\<close>

datatype stuck = Frames_exhausted | Undefined_cast

text \<open>Lines 154 to 156, on the measured time.\<close>

definition frame_pacer :: "f32 \<Rightarrow> stuck + action list" where
  "frame_pacer elapsed =
     (if f32_lt elapsed targetFrameTimeMS
      then (case f32_to_u32 (f32_sub targetFrameTimeMS elapsed) of
              None \<Rightarrow> Inl Undefined_cast
            | Some ms \<Rightarrow> Inr [SDL_Delay ms])
      else Inr [])"

subsection \<open>The loop and \<^verbatim>\<open>main\<close>\<close>

text \<open>
  \<^verbatim>\<open>while (running)\<close> on the frames that the outside supplies.  The loop ends when
  \<open>running\<close> is false at the top of an iteration; when the frames run out before that, the
  program is still in the loop.
\<close>

fun game_loop :: "frame list \<Rightarrow> locals \<Rightarrow> stuck + action list \<times> locals" where
  "game_loop fs v =
     (if \<not> running v then Inr ([], v)
      else case fs of
        [] \<Rightarrow> Inl Frames_exhausted
      | f # fs' \<Rightarrow>
          (let v' = update_position (poll_events (events f) v) in
           case frame_pacer (elapsedMS f) of
             Inl e \<Rightarrow> Inl e
           | Inr pace \<Rightarrow>
               (case game_loop fs' v' of
                  Inl e \<Rightarrow> Inl e
                | Inr (tr, v'') \<Rightarrow> Inr (render v' @ pace @ tr, v''))))"

declare game_loop.simps [simp del]

text \<open>The outside of one run.\<close>

record world =
  init_ok :: bool
  create_ok :: bool
  windowWidthInt :: "32 word"
  windowHeightInt :: "32 word"
  frames :: "frame list"

definition initial_locals :: "world \<Rightarrow> locals" where
  "initial_locals w =
     \<lparr>squareX = Fin 100, squareY = Fin 100, squareSize = Fin 50, moveSpeed = Fin 5,
      windowWidth = int_to_f32 (windowWidthInt w), windowHeight = int_to_f32 (windowHeightInt w),
      movingUp = False, movingDown = False, movingLeft = False, movingRight = False,
      running = True\<rparr>"

text \<open>\<^verbatim>\<open>main\<close>: the calls made and the exit code.\<close>

definition main :: "world \<Rightarrow> stuck + action list \<times> int" where
  "main w =
     (if \<not> init_ok w then Inr ([SDL_Init, SDL_Log ''Failed to initialize video! %s''], 1)
      else if \<not> create_ok w then
        Inr ([SDL_Init, SDL_CreateWindowAndRenderer,
              SDL_Log ''Failed to create window and renderer: %s'', SDL_Quit], 1)
      else case game_loop (frames w) (initial_locals w) of
        Inl e \<Rightarrow> Inl e
      | Inr (tr, v) \<Rightarrow>
          Inr ([SDL_Init, SDL_CreateWindowAndRenderer] @ tr @
               [SDL_DestroyRenderer, SDL_DestroyWindow, SDL_Quit], 0))"

section \<open>Notions for the statements\<close>

text \<open>
  The update of one coordinate, read off the two axes of \<open>apply_movement\<close> and
  \<open>clamp_to_window\<close>: the decreasing move, the increasing move, the lower clamp, the upper
  clamp.
\<close>

definition move_axis :: "bool \<Rightarrow> bool \<Rightarrow> f32 \<Rightarrow> f32 \<Rightarrow> f32" where
  "move_axis dec inc p s =
     (let p1 = (if dec then f32_sub p s else p) in if inc then f32_add p1 s else p1)"

definition clamp_axis :: "f32 \<Rightarrow> f32 \<Rightarrow> f32 \<Rightarrow> f32" where
  "clamp_axis p sz w =
     (let p1 = (if f32_lt p (Fin 0) then Fin 0 else p)
      in if f32_gt (f32_add p1 sz) w then f32_sub w sz else p1)"

text \<open>
  The flag of a key in the words of the specification: a press of the key sets it, a
  release clears it, any other event leaves it.
\<close>

fun key_flag :: "SDL_Scancode \<Rightarrow> SDL_Event list \<Rightarrow> bool \<Rightarrow> bool" where
  "key_flag sc [] b = b"
| "key_flag sc (e # es) b =
     key_flag sc es
       (if e = SDL_EVENT_KEY_DOWN sc then True else if e = SDL_EVENT_KEY_UP sc then False else b)"

text \<open>The effect of one whole iteration on the variables.\<close>

definition frame_step :: "frame \<Rightarrow> locals \<Rightarrow> locals" where
  "frame_step f v = update_position (poll_events (events f) v)"

text \<open>The calls of the pacer, as a function of the measured time alone.\<close>

definition pace_of :: "f32 \<Rightarrow> action list" where
  "pace_of elapsed = (case frame_pacer elapsed of Inl e \<Rightarrow> [] | Inr pace \<Rightarrow> pace)"

text \<open>The given frames, each run as a whole iteration: poll, update, render, pace.\<close>

fun run_frames :: "frame list \<Rightarrow> locals \<Rightarrow> action list \<times> locals" where
  "run_frames [] v = ([], v)"
| "run_frames (f # fs) v =
     (case run_frames fs (frame_step f v) of
        (tr, v') \<Rightarrow> (render (frame_step f v) @ pace_of (elapsedMS f) @ tr, v'))"

fun is_delay :: "action \<Rightarrow> bool" where
  "is_delay (SDL_Delay ms) = True"
| "is_delay a = False"

text \<open>A value that is zero or more, or a NaN: what a measured time can be.\<close>

fun f32_nonneg :: "f32 \<Rightarrow> bool" where
  "f32_nonneg (Fin a) = (0 \<le> a)"
| "f32_nonneg PInf = True"
| "f32_nonneg NInf = False"
| "f32_nonneg NaN = True"

section \<open>Properties of rounding\<close>

subsection \<open>The grid\<close>

lemma binade_shift_upper: "k < 2 ^ (24 + binade_shift k)"
proof (induction k rule: binade_shift.induct)
  case (1 k)
  show ?case
  proof (cases "k < 2 ^ 24")
    case True
    then show ?thesis by (simp add: binade_shift.simps)
  next
    case False
    from 1 [OF False] have "k div 2 < 2 ^ (24 + binade_shift (k div 2))" .
    then have "k < 2 * 2 ^ (24 + binade_shift (k div 2))" by linarith
    also have "\<dots> = 2 ^ (24 + (binade_shift (k div 2) + 1))" by (simp add: power_add)
    finally show ?thesis using False by (subst binade_shift.simps) simp
  qed
qed

lemma binade_shift_lower: "0 < binade_shift k \<Longrightarrow> 2 ^ (23 + binade_shift k) \<le> k"
proof (induction k rule: binade_shift.induct)
  case (1 k)
  have big: "\<not> k < 2 ^ 24" using 1(2) by (subst (asm) binade_shift.simps) (simp split: if_splits)
  have eq: "binade_shift k = binade_shift (k div 2) + 1"
    using big by (subst binade_shift.simps) simp
  show ?case
  proof (cases "0 < binade_shift (k div 2)")
    case True
    from 1(1) [OF big True] have "2 * 2 ^ (23 + binade_shift (k div 2)) \<le> 2 * (k div 2)" by simp
    also have "\<dots> \<le> k" by simp
    finally have "2 * 2 ^ (23 + binade_shift (k div 2)) \<le> k" .
    moreover have "(2::nat) * 2 ^ (23 + binade_shift (k div 2)) = 2 ^ (23 + (binade_shift (k div 2) + 1))"
      by (simp add: power_add)
    ultimately show ?thesis by (simp only: eq)
  next
    case False
    with big show ?thesis by (simp add: eq)
  qed
qed

lemma binade_shift_mono: "k \<le> k' \<Longrightarrow> binade_shift k \<le> binade_shift k'"
proof (rule ccontr)
  assume le: "k \<le> k'" and "\<not> binade_shift k \<le> binade_shift k'"
  then have gt: "binade_shift k' < binade_shift k" by simp
  then have "2 ^ (23 + binade_shift k) \<le> k" by (intro binade_shift_lower) simp
  also note le
  also have "k' < 2 ^ (24 + binade_shift k')" by (rule binade_shift_upper)
  also have "(2::nat) ^ (24 + binade_shift k') \<le> 2 ^ (23 + binade_shift k)"
    using gt by (intro power_increasing) simp_all
  finally show False by simp
qed

lemma binade_shift_le: "k < 2 ^ (24 + b) \<Longrightarrow> binade_shift k \<le> b"
proof (rule ccontr)
  assume lt: "k < 2 ^ (24 + b)" and "\<not> binade_shift k \<le> b"
  then have gt: "b < binade_shift k" by simp
  then have "2 ^ (23 + binade_shift k) \<le> k" by (intro binade_shift_lower) simp
  also note lt
  also have "(2::nat) ^ (24 + b) \<le> 2 ^ (23 + binade_shift k)"
    using gt by (intro power_increasing) simp_all
  finally show False by simp
qed

lemma rne_of_int [simp]: "rne (of_int i) = i"
  by (simp add: rne_def)

lemma rne_lower: "\<lfloor>r\<rfloor> \<le> rne r"
  by (simp add: rne_def Let_def)

lemma rne_upper: "rne r \<le> \<lfloor>r\<rfloor> + 1"
  by (simp add: rne_def Let_def)

lemma rne_mono: "r \<le> r' \<Longrightarrow> rne r \<le> rne r'"
proof -
  assume le: "r \<le> r'"
  then have fl: "\<lfloor>r\<rfloor> \<le> \<lfloor>r'\<rfloor>" by (rule floor_mono)
  show ?thesis
  proof (cases "\<lfloor>r\<rfloor> = \<lfloor>r'\<rfloor>")
    case True
    with le show ?thesis by (auto simp add: rne_def Let_def)
  next
    case False
    with fl have "\<lfloor>r\<rfloor> + 1 \<le> \<lfloor>r'\<rfloor>" by simp
    with rne_upper [of r] rne_lower [of r'] show ?thesis by linarith
  qed
qed

lemma rne_error: "\<bar>of_int (rne r) - r\<bar> \<le> 1 / 2"
proof -
  define f where "f = \<lfloor>r\<rfloor>"
  have b: "of_int f \<le> r" "r < of_int f + 1" unfolding f_def by linarith+
  consider "r - of_int f < 1 / 2" | "1 / 2 < r - of_int f" | "r - of_int f = 1 / 2"
    by linarith
  then show ?thesis
  proof cases
    case 1
    then have "rne r = f" by (simp add: rne_def f_def)
    with 1 b show ?thesis by simp
  next
    case 2
    then have "rne r = f + 1" by (simp add: rne_def f_def)
    with 2 b show ?thesis by simp
  next
    case 3
    then have "rne r = f \<or> rne r = f + 1" by (simp add: rne_def f_def Let_def)
    with 3 b show ?thesis by auto
  qed
qed

lemma rne_minus: "rne (- r) = - rne r"
proof (cases "r = of_int \<lfloor>r\<rfloor>")
  case True
  then obtain i where "r = of_int i" ..
  then have "rne (- r) = rne (of_int (- i))" by simp
  also have "\<dots> = - i" by (rule rne_of_int)
  finally show ?thesis using \<open>r = of_int i\<close> by simp
next
  case False
  define f where "f = \<lfloor>r\<rfloor>"
  have b: "of_int f < r" "r < of_int f + 1"
    using False unfolding f_def by linarith+
  have fl: "\<lfloor>- r\<rfloor> = - f - 1"
    using b by (intro floor_unique) simp_all
  have ev: "even (- f - 1) \<longleftrightarrow> odd f" by simp
  consider "r - of_int f < 1 / 2" | "1 / 2 < r - of_int f" | "r - of_int f = 1 / 2"
    by linarith
  then show ?thesis
  proof cases
    case 1
    then have "rne r = f" by (simp add: rne_def f_def)
    moreover have "rne (- r) = - f" using 1 by (simp add: rne_def fl)
    ultimately show ?thesis by simp
  next
    case 2
    then have "rne r = f + 1" by (simp add: rne_def f_def)
    moreover have "rne (- r) = - f - 1" using 2 by (simp add: rne_def fl)
    ultimately show ?thesis by simp
  next
    case 3
    then have "rne r = (if even f then f else f + 1)" by (simp add: rne_def f_def)
    moreover have "- r - of_int (- f - 1) = 1 / 2" using 3 by simp
    then have "rne (- r) = (if odd f then - f - 1 else - f)"
      unfolding rne_def fl Let_def by (simp only: ev) simp
    ultimately show ?thesis by simp
  qed
qed


lemma binade_of_minus [simp]: "binade_of (- u) = binade_of u"
  by (simp add: binade_of_def)

lemma abs_less_binade: "\<bar>u\<bar> < 2 ^ (24 + binade_of u)"
proof -
  have "nat \<lfloor>\<bar>u\<bar>\<rfloor> < 2 ^ (24 + binade_of u)"
    unfolding binade_of_def by (rule binade_shift_upper)
  then have "\<lfloor>\<bar>u\<bar>\<rfloor> < 2 ^ (24 + binade_of u)"
    by (simp add: nat_less_iff)
  then show ?thesis by (simp add: floor_less_iff)
qed

lemma binade_le_abs: "0 < binade_of u \<Longrightarrow> 2 ^ (23 + binade_of u) \<le> \<bar>u\<bar>"
proof -
  assume "0 < binade_of u"
  then have "2 ^ (23 + binade_of u) \<le> nat \<lfloor>\<bar>u\<bar>\<rfloor>"
    unfolding binade_of_def by (rule binade_shift_lower)
  then have "(2::int) ^ (23 + binade_of u) \<le> \<lfloor>\<bar>u\<bar>\<rfloor>"
    by (simp add: le_nat_iff)
  then have "of_int (2 ^ (23 + binade_of u)) \<le> \<bar>u\<bar>"
    by (simp only: le_floor_iff)
  then show ?thesis by simp
qed

lemma binade_of_mono: "\<bar>u\<bar> \<le> \<bar>v\<bar> \<Longrightarrow> binade_of u \<le> binade_of v"
  unfolding binade_of_def by (intro binade_shift_mono nat_mono floor_mono)

lemma binade_of_le: "\<bar>u\<bar> < 2 ^ (24 + b) \<Longrightarrow> binade_of u \<le> b"
proof -
  assume "\<bar>u\<bar> < 2 ^ (24 + b)"
  then have "\<lfloor>\<bar>u\<bar>\<rfloor> < 2 ^ (24 + b)" by (simp add: floor_less_iff)
  then have "nat \<lfloor>\<bar>u\<bar>\<rfloor> < 2 ^ (24 + b)" by (simp add: nat_less_iff)
  then show ?thesis unfolding binade_of_def by (rule binade_shift_le)
qed

lemma round_units_minus: "round_units (- u) = - round_units u"
  by (simp add: round_units_def rne_minus)

lemma round_units_nonneg: "0 \<le> u \<Longrightarrow> 0 \<le> round_units u"
proof -
  assume "0 \<le> u"
  then have "rne (of_int 0) \<le> rne (u / 2 ^ binade_of u)" by (intro rne_mono) simp
  then show ?thesis by (simp add: round_units_def del: of_int_0)
qed

lemma round_units_upper: "0 \<le> u \<Longrightarrow> round_units u \<le> 2 ^ (24 + binade_of u)"
proof -
  assume "0 \<le> u"
  with abs_less_binade [of u] have "u \<le> 2 ^ 24 * 2 ^ binade_of u" by (simp add: power_add)
  then have "u / 2 ^ binade_of u \<le> of_int (2 ^ 24)" by (simp add: divide_le_eq)
  then have "rne (u / 2 ^ binade_of u) \<le> rne (of_int (2 ^ 24))" by (rule rne_mono)
  then have "rne (u / 2 ^ binade_of u) \<le> 2 ^ 24" by (simp only: rne_of_int)
  then have "rne (u / 2 ^ binade_of u) * 2 ^ binade_of u \<le> 2 ^ 24 * 2 ^ binade_of u"
    by (intro mult_right_mono) simp_all
  then show ?thesis by (simp add: round_units_def power_add)
qed

lemma round_units_lower:
  "0 \<le> u \<Longrightarrow> 0 < binade_of u \<Longrightarrow> 2 ^ (23 + binade_of u) \<le> round_units u"
proof -
  assume "0 \<le> u" "0 < binade_of u"
  with binade_le_abs [of u] have "2 ^ 23 * 2 ^ binade_of u \<le> u" by (simp add: power_add)
  then have "of_int (2 ^ 23) \<le> u / 2 ^ binade_of u" by (simp add: le_divide_eq)
  then have "rne (of_int (2 ^ 23)) \<le> rne (u / 2 ^ binade_of u)" by (rule rne_mono)
  then have "2 ^ 23 \<le> rne (u / 2 ^ binade_of u)" by (simp only: rne_of_int)
  then have "2 ^ 23 * 2 ^ binade_of u \<le> rne (u / 2 ^ binade_of u) * 2 ^ binade_of u"
    by (intro mult_right_mono) simp_all
  then show ?thesis by (simp add: round_units_def power_add)
qed

lemma round_units_mono_nonneg:
  assumes "0 \<le> u" "u \<le> v"
  shows "round_units u \<le> round_units v"
proof -
  have v: "0 \<le> v" using assms by simp
  have le: "binade_of u \<le> binade_of v" using assms by (intro binade_of_mono) simp
  show ?thesis
  proof (cases "binade_of u = binade_of v")
    case True
    have "u / 2 ^ binade_of v \<le> v / 2 ^ binade_of v"
      using assms by (simp add: divide_right_mono)
    then have "rne (u / 2 ^ binade_of v) \<le> rne (v / 2 ^ binade_of v)" by (rule rne_mono)
    then have "rne (u / 2 ^ binade_of v) * 2 ^ binade_of v
        \<le> rne (v / 2 ^ binade_of v) * 2 ^ binade_of v"
      by (intro mult_right_mono) simp_all
    then show ?thesis by (simp add: round_units_def True)
  next
    case False
    with le have lt: "binade_of u < binade_of v" by simp
    have "round_units u \<le> 2 ^ (24 + binade_of u)" using assms(1) by (rule round_units_upper)
    also have "(2::int) ^ (24 + binade_of u) \<le> 2 ^ (23 + binade_of v)"
      using lt by (intro power_increasing) simp_all
    also have "\<dots> \<le> round_units v" using v lt by (intro round_units_lower) simp_all
    finally show ?thesis .
  qed
qed

lemma round_units_mono: "u \<le> v \<Longrightarrow> round_units u \<le> round_units v"
proof -
  assume le: "u \<le> v"
  consider "0 \<le> u" | "v \<le> 0" | "u < 0" "0 < v" by linarith
  then show ?thesis
  proof cases
    case 1
    then show ?thesis using le by (rule round_units_mono_nonneg)
  next
    case 2
    then have "round_units (- v) \<le> round_units (- u)"
      using le by (intro round_units_mono_nonneg) simp_all
    then show ?thesis by (simp add: round_units_minus)
  next
    case 3
    have "0 \<le> round_units (- u)" using 3 by (intro round_units_nonneg) simp
    moreover have "0 \<le> round_units v" using 3 by (intro round_units_nonneg) simp
    ultimately show ?thesis by (simp add: round_units_minus)
  qed
qed

lemma round_units_error:
  "\<bar>of_int (round_units u) - u\<bar> \<le> 2 ^ binade_of u / 2"
proof -
  let ?p = "(2::real) ^ binade_of u"
  have "\<bar>of_int (rne (u / ?p)) - u / ?p\<bar> \<le> 1 / 2" by (rule rne_error)
  then have "\<bar>of_int (rne (u / ?p)) - u / ?p\<bar> * ?p \<le> 1 / 2 * ?p"
    by (intro mult_right_mono) simp_all
  moreover have "\<bar>of_int (rne (u / ?p)) - u / ?p\<bar> * ?p = \<bar>of_int (rne (u / ?p)) * ?p - u\<bar>"
  proof -
    have "\<bar>of_int (rne (u / ?p)) - u / ?p\<bar> * ?p = \<bar>(of_int (rne (u / ?p)) - u / ?p) * ?p\<bar>"
      by (simp add: abs_mult)
    also have "(of_int (rne (u / ?p)) - u / ?p) * ?p = of_int (rne (u / ?p)) * ?p - u"
      by (simp add: algebra_simps)
    finally show ?thesis .
  qed
  ultimately show ?thesis by (simp add: round_units_def)
qed

lemma round_units_of_int:
  assumes "2 ^ binade_of (of_int k) dvd k"
  shows "round_units (of_int k) = k"
proof -
  from assms obtain m where k: "k = 2 ^ binade_of (of_int k) * m" ..
  have "(of_int k :: real) / 2 ^ binade_of (of_int k) = of_int m"
    by (subst k) simp
  then have "rne (of_int k / 2 ^ binade_of (of_int k)) = m" by (simp only: rne_of_int)
  then have "round_units (of_int k) = m * 2 ^ binade_of (of_int k)"
    by (simp only: round_units_def)
  also have "\<dots> = k" by (metis k mult.commute)
  finally show ?thesis .
qed

lemma round_units_idem_nonneg:
  assumes "0 \<le> u"
  shows "round_units (of_int (round_units u)) = round_units u"
proof (rule round_units_of_int)
  let ?r = "round_units u"
  let ?s = "binade_of u" and ?s' = "binade_of (of_int ?r)"
  have r0: "0 \<le> ?r" using assms by (rule round_units_nonneg)
  have up: "?r \<le> 2 ^ (24 + ?s)" using assms by (rule round_units_upper)
  have dv: "2 ^ ?s dvd ?r" by (simp add: round_units_def)
  show "2 ^ ?s' dvd ?r"
  proof (cases "?s' \<le> ?s")
    case True
    then have "(2::int) ^ ?s' dvd 2 ^ ?s" by (rule le_imp_power_dvd)
    then show ?thesis using dv by (rule dvd_trans)
  next
    case False
    then have lt: "?s < ?s'" by simp
    then have "0 < ?s'" by simp
    then have "2 ^ (23 + ?s') \<le> \<bar>of_int ?r :: real\<bar>" by (rule binade_le_abs)
    then have "(2::real) ^ (23 + ?s') \<le> of_int ?r" using r0 by simp
    then have "of_int (2 ^ (23 + ?s')) \<le> (of_int ?r :: real)" by simp
    then have low: "2 ^ (23 + ?s') \<le> ?r" by (simp only: of_int_le_iff)
    have pw: "(2::int) ^ (24 + ?s) \<le> 2 ^ (23 + ?s')"
      using lt by (intro power_increasing) simp_all
    from pw low up have eq: "?r = 2 ^ (24 + ?s)" by linarith
    from pw low up have "(2::int) ^ (23 + ?s') \<le> 2 ^ (24 + ?s)" by linarith
    then have "23 + ?s' \<le> 24 + ?s" by (simp only: power_increasing_iff)
    then have "?s' \<le> 24 + ?s" by simp
    then have "(2::int) ^ ?s' dvd 2 ^ (24 + ?s)" by (rule le_imp_power_dvd)
    then show ?thesis using eq by simp
  qed
qed

lemma round_units_idem: "round_units (of_int (round_units u)) = round_units u"
proof (cases "0 \<le> u")
  case True
  then show ?thesis by (rule round_units_idem_nonneg)
next
  case False
  then have "round_units (of_int (round_units (- u))) = round_units (- u)"
    by (intro round_units_idem_nonneg) simp
  then have "round_units (- of_int (round_units u)) = - round_units u"
    by (simp add: round_units_minus)
  then show ?thesis by (simp only: round_units_minus of_int_minus neg_equal_iff_equal)
qed

subsection \<open>Rounding to binary32\<close>

lemmas f32_eval =
  f32_round_def round_units_def binade_of_def rne_def binade_shift.simps is_f32_def Let_def

lemma f32_round_mono: "a \<le> b \<Longrightarrow> f32_le (f32_round a) (f32_round b)"
proof -
  assume "a \<le> b"
  then have "a * 2 ^ 149 \<le> b * 2 ^ 149" by simp
  then have "round_units (a * 2 ^ 149) \<le> round_units (b * 2 ^ 149)" by (rule round_units_mono)
  then show ?thesis by (simp add: f32_round_def Let_def divide_right_mono)
qed

lemma f32_round_minus: "f32_round (- q) = f32_neg (f32_round q)"
proof -
  have "round_units (- q * 2 ^ 149) = - round_units (q * 2 ^ 149)"
    using round_units_minus [of "q * 2 ^ 149"] by simp
  then show ?thesis by (auto simp add: f32_round_def Let_def)
qed

lemma f32_round_cases:
  obtains (fin) r where "f32_round q = Fin r" | (pinf) "f32_round q = PInf" | (ninf) "f32_round q = NInf"
  by (cases "f32_round q") (auto simp add: f32_round_def Let_def split: if_splits)

lemma f32_round_not_NaN [simp]: "f32_round q \<noteq> NaN"
  by (rule f32_round_cases [of q]) simp_all

lemma f32_round_FinD:
  assumes "f32_round q = Fin r"
  shows "r = of_int (round_units (q * 2 ^ 149)) / 2 ^ 149"
    and "round_units (q * 2 ^ 149) < 2 ^ 277"
    and "- (2 ^ 277) < round_units (q * 2 ^ 149)"
  using assms by (auto simp add: f32_round_def Let_def split: if_splits)

lemma f32_round_idem: "f32_round q = Fin r \<Longrightarrow> is_f32 r"
proof -
  assume a: "f32_round q = Fin r"
  let ?k = "round_units (q * 2 ^ 149)"
  from f32_round_FinD [OF a] have r: "r = of_int ?k / 2 ^ 149"
    and b: "?k < 2 ^ 277" "- (2 ^ 277) < ?k" .
  have "r * 2 ^ 149 = of_int ?k" by (simp add: r)
  then have "round_units (r * 2 ^ 149) = ?k" by (simp only: round_units_idem)
  then show ?thesis using b r by (simp add: is_f32_def f32_round_def)
qed

lemma is_f32_exact: "is_f32 q \<Longrightarrow> f32_round q = Fin q"
  by (simp add: is_f32_def)

lemma is_f32_minus: "is_f32 q \<Longrightarrow> is_f32 (- q)"
  by (simp add: is_f32_def f32_round_minus)

lemma is_f32_0 [simp]: "is_f32 0"
  by (simp add: f32_eval)

lemma is_f32_units: "is_f32 q \<Longrightarrow> q * 2 ^ 149 = of_int (round_units (q * 2 ^ 149))"
proof -
  assume "is_f32 q"
  then have "f32_round q = Fin q" by (simp add: is_f32_def)
  from f32_round_FinD(1) [OF this] show ?thesis by simp
qed

text \<open>The rounding error below \<open>2 ^ (b - 125)\<close> is at most half of the spacing \<open>2 ^ (b - 149)\<close>.\<close>

lemma f32_round_error:
  assumes "f32_round q = Fin r" and "\<bar>q\<bar> * 2 ^ 149 < 2 ^ (24 + b)"
  shows "\<bar>r - q\<bar> \<le> 2 ^ b / 2 / 2 ^ 149"
proof -
  define c :: real where "c = 2 ^ 149"
  have c: "0 < c" by (simp add: c_def)
  let ?u = "q * c"
  have "\<bar>?u\<bar> < 2 ^ (24 + b)" using assms(2) c by (simp add: abs_mult c_def)
  then have "binade_of ?u \<le> b" by (rule binade_of_le)
  then have p: "(2::real) ^ binade_of ?u \<le> 2 ^ b" by (intro power_increasing) simp_all
  have "\<bar>of_int (round_units ?u) - ?u\<bar> \<le> 2 ^ binade_of ?u / 2" by (rule round_units_error)
  also have "\<dots> \<le> 2 ^ b / 2" using p by (rule divide_right_mono) simp
  finally have e: "\<bar>of_int (round_units ?u) - ?u\<bar> \<le> 2 ^ b / 2" .
  have "r = of_int (round_units ?u) / c"
    using f32_round_FinD(1) [OF assms(1)] by (simp only: c_def)
  then have "of_int (round_units ?u) - ?u = (r - q) * c"
    using c by (simp add: algebra_simps)
  with e have "\<bar>(r - q) * c\<bar> \<le> 2 ^ b / 2" by simp
  then have "\<bar>r - q\<bar> * c \<le> 2 ^ b / 2" using c by (simp add: abs_mult)
  then have "\<bar>r - q\<bar> \<le> 2 ^ b / 2 / c" using c by (simp add: le_divide_eq)
  then show ?thesis by (simp only: c_def)
qed

subsection \<open>Order and arithmetic\<close>

lemma f32_le_not_lt: "f32_le x y \<Longrightarrow> \<not> f32_lt y x"
  by (cases x; cases y) simp_all

lemma f32_not_lt_le: "x \<noteq> NaN \<Longrightarrow> y \<noteq> NaN \<Longrightarrow> \<not> f32_lt y x \<Longrightarrow> f32_le x y"
  by (cases x; cases y) simp_all

lemma f32_le_trans: "f32_le x y \<Longrightarrow> f32_le y z \<Longrightarrow> f32_le x z"
  by (cases x; cases y; cases z) simp_all

lemma f32_add_not_NaN: "x \<noteq> NaN \<Longrightarrow> f32_add x (Fin b) \<noteq> NaN"
  by (cases x) simp_all

lemma f32_sub_not_NaN: "x \<noteq> NaN \<Longrightarrow> f32_sub x (Fin b) \<noteq> NaN"
  by (cases x) (simp_all add: f32_sub_def)

lemma f32_sub_Fin [simp]: "f32_sub (Fin a) (Fin b) = f32_round (a - b)"
  by (simp add: f32_sub_def)

lemma f32_add_ok: "f32_ok (f32_add x y)"
proof (cases "f32_add x y")
  case (Fin r)
  then obtain a b where "x = Fin a" "y = Fin b" by (cases x; cases y) simp_all
  with Fin have "f32_round (a + b) = Fin r" by simp
  then show ?thesis using Fin by (simp add: f32_round_idem)
qed simp_all

lemma f32_sub_ok: "f32_ok (f32_sub x y)"
  unfolding f32_sub_def by (rule f32_add_ok)

text \<open>
  A mantissa of at most 24 bits at an exponent of at least \<open>- 149\<close> is a binary32 value; so
  the whole numbers up to \<open>2 ^ 24\<close> are.
\<close>

lemma is_f32_scaled:
  assumes "\<bar>n\<bar> \<le> 2 ^ 24" and "e \<le> 149"
  shows "is_f32 (of_int n / 2 ^ e)"
proof -
  define m where "m = 149 - e"
  define c :: int where "c = 2 ^ m"
  have c: "0 < c" by (simp add: c_def)
  have me: "m + e = 149" using assms(2) by (simp add: m_def)
  have p24: "2 ^ 24 * c = 2 ^ (24 + m)" by (simp add: c_def power_add)
  let ?u = "of_int (n * c) :: real"
  have scale: "of_int n / 2 ^ e * 2 ^ 149 = ?u"
  proof -
    have "(2::real) ^ 149 = 2 ^ m * 2 ^ e" by (simp only: me [symmetric] power_add)
    then have "(of_int n :: real) / 2 ^ e * 2 ^ 149 = of_int n / 2 ^ e * (2 ^ m * 2 ^ e)"
      by (simp only:)
    also have "\<dots> = of_int n * 2 ^ m" by simp
    also have "\<dots> = ?u" by (simp add: c_def)
    finally show ?thesis .
  qed
  have abs_u: "\<bar>?u\<bar> = of_int (\<bar>n\<bar> * c)" using c by (simp add: abs_mult)
  have le: "\<bar>n\<bar> * c \<le> 2 ^ (24 + m)"
    using assms(1) c by (simp only: p24 [symmetric]) (rule mult_right_mono, simp_all)
  also have "(2::int) ^ (24 + m) < 2 ^ (24 + (m + 1))" by (intro power_strict_increasing) simp_all
  finally have "(of_int (\<bar>n\<bar> * c) :: real) < of_int (2 ^ (24 + (m + 1)))"
    by (simp only: of_int_less_iff)
  then have "\<bar>?u\<bar> < 2 ^ (24 + (m + 1))" by (simp only: abs_u) simp
  then have b: "binade_of ?u \<le> m + 1" by (rule binade_of_le)
  have "2 ^ binade_of ?u dvd n * c"
  proof (cases "binade_of ?u \<le> m")
    case True
    then have "(2::int) ^ binade_of ?u dvd c" unfolding c_def by (rule le_imp_power_dvd)
    then show ?thesis by (rule dvd_mult)
  next
    case False
    with b have eq: "binade_of ?u = m + 1" by simp
    then have "0 < binade_of ?u" by simp
    then have "2 ^ (23 + binade_of ?u) \<le> \<bar>?u\<bar>" by (rule binade_le_abs)
    then have "(2::real) ^ (24 + m) \<le> of_int (\<bar>n\<bar> * c)" by (simp only: abs_u eq) simp
    then have "(of_int (2 ^ (24 + m)) :: real) \<le> of_int (\<bar>n\<bar> * c)" by simp
    then have "2 ^ (24 + m) \<le> \<bar>n\<bar> * c" by (simp only: of_int_le_iff)
    with le have "\<bar>n\<bar> * c = 2 ^ (24 + m)" by simp
    then have "\<bar>n * c\<bar> = 2 ^ (24 + m)" using c by (simp add: abs_mult)
    moreover have "(2::int) ^ (m + 1) dvd 2 ^ (24 + m)" by (intro le_imp_power_dvd) simp
    ultimately have "2 ^ (m + 1) dvd \<bar>n * c\<bar>" by simp
    then show ?thesis by (simp only: eq dvd_abs_iff)
  qed
  then have r: "round_units ?u = n * c" by (rule round_units_of_int)
  have "\<bar>n * c\<bar> = \<bar>n\<bar> * c" using c by (simp add: abs_mult)
  also note le
  also have "(2::int) ^ (24 + m) < 2 ^ 277"
    using me by (intro power_strict_increasing) simp_all
  finally have "\<bar>n * c\<bar> < 2 ^ 277" .
  then have bound: "\<not> 2 ^ 277 \<le> n * c" "\<not> n * c \<le> - (2 ^ 277)" by linarith+
  have unscale: "(of_int (n * c) :: real) / 2 ^ 149 = of_int n / 2 ^ e"
    by (simp only: scale [symmetric]) simp
  show ?thesis
    unfolding is_f32_def f32_round_def Let_def by (simp only: scale r bound if_False unscale)
qed

lemma is_f32_of_int: "\<bar>n\<bar> \<le> 2 ^ 24 \<Longrightarrow> is_f32 (of_int n)"
  using is_f32_scaled [of n 0] by simp

lemma f32_round_numeral [simp]:
  "numeral k \<le> (16777216::int) \<Longrightarrow> f32_round (numeral k) = Fin (numeral k)"
  using is_f32_of_int [of "numeral k"] by (simp add: is_f32_def)

lemma f32_round_neg_numeral [simp]:
  "numeral k \<le> (16777216::int) \<Longrightarrow> f32_round (- numeral k) = Fin (- numeral k)"
  using is_f32_of_int [of "- numeral k"] by (simp add: is_f32_def)

lemma f32_round_0 [simp]: "f32_round 0 = Fin 0"
  using is_f32_of_int [of 0] by (simp add: is_f32_def)

lemma f32_round_1 [simp]: "f32_round 1 = Fin 1"
  using is_f32_of_int [of 1] by (simp add: is_f32_def)

lemma is_f32_numeral [simp]: "numeral k \<le> (16777216::int) \<Longrightarrow> is_f32 (numeral k)"
  by (simp add: is_f32_def)

section \<open>The event drain\<close>

lemma key_down_fields [simp]:
  "squareX (key_down sc v) = squareX v" "squareY (key_down sc v) = squareY v"
  "squareSize (key_down sc v) = squareSize v" "moveSpeed (key_down sc v) = moveSpeed v"
  "windowWidth (key_down sc v) = windowWidth v" "windowHeight (key_down sc v) = windowHeight v"
  "running (key_down sc v) = running v"
  by (cases sc; simp)+

lemma key_up_fields [simp]:
  "squareX (key_up sc v) = squareX v" "squareY (key_up sc v) = squareY v"
  "squareSize (key_up sc v) = squareSize v" "moveSpeed (key_up sc v) = moveSpeed v"
  "windowWidth (key_up sc v) = windowWidth v" "windowHeight (key_up sc v) = windowHeight v"
  "running (key_up sc v) = running v"
  by (cases sc; simp)+

lemma handle_event_fields [simp]:
  "squareX (handle_event e v) = squareX v" "squareY (handle_event e v) = squareY v"
  "squareSize (handle_event e v) = squareSize v" "moveSpeed (handle_event e v) = moveSpeed v"
  "windowWidth (handle_event e v) = windowWidth v"
  "windowHeight (handle_event e v) = windowHeight v"
  by (cases e; simp)+

lemma handle_event_running: "running (handle_event e v) = (running v \<and> e \<noteq> SDL_EVENT_QUIT)"
  by (cases e) simp_all

lemma handle_event_flags:
  "movingUp (handle_event e v) = key_flag SDL_SCANCODE_W [e] (movingUp v)"
  "movingDown (handle_event e v) = key_flag SDL_SCANCODE_S [e] (movingDown v)"
  "movingLeft (handle_event e v) = key_flag SDL_SCANCODE_A [e] (movingLeft v)"
  "movingRight (handle_event e v) = key_flag SDL_SCANCODE_D [e] (movingRight v)"
proof -
  show "movingUp (handle_event e v) = key_flag SDL_SCANCODE_W [e] (movingUp v)"
  proof (cases e)
    case (SDL_EVENT_KEY_DOWN sc) then show ?thesis by (cases sc) simp_all
  next
    case (SDL_EVENT_KEY_UP sc) then show ?thesis by (cases sc) simp_all
  qed simp_all
  show "movingDown (handle_event e v) = key_flag SDL_SCANCODE_S [e] (movingDown v)"
  proof (cases e)
    case (SDL_EVENT_KEY_DOWN sc) then show ?thesis by (cases sc) simp_all
  next
    case (SDL_EVENT_KEY_UP sc) then show ?thesis by (cases sc) simp_all
  qed simp_all
  show "movingLeft (handle_event e v) = key_flag SDL_SCANCODE_A [e] (movingLeft v)"
  proof (cases e)
    case (SDL_EVENT_KEY_DOWN sc) then show ?thesis by (cases sc) simp_all
  next
    case (SDL_EVENT_KEY_UP sc) then show ?thesis by (cases sc) simp_all
  qed simp_all
  show "movingRight (handle_event e v) = key_flag SDL_SCANCODE_D [e] (movingRight v)"
  proof (cases e)
    case (SDL_EVENT_KEY_DOWN sc) then show ?thesis by (cases sc) simp_all
  next
    case (SDL_EVENT_KEY_UP sc) then show ?thesis by (cases sc) simp_all
  qed simp_all
qed

lemma key_flag_Cons: "key_flag sc (e # es) b = key_flag sc es (key_flag sc [e] b)"
  by simp

lemma poll_events_fields [simp]:
  "squareX (poll_events es v) = squareX v" "squareY (poll_events es v) = squareY v"
  "squareSize (poll_events es v) = squareSize v" "moveSpeed (poll_events es v) = moveSpeed v"
  "windowWidth (poll_events es v) = windowWidth v"
  "windowHeight (poll_events es v) = windowHeight v"
  by (induction es arbitrary: v; simp)+

lemma poll_events_running:
  "running (poll_events es v) = (running v \<and> SDL_EVENT_QUIT \<notin> set es)"
  by (induction es arbitrary: v) (auto simp add: handle_event_running)

lemma poll_events_flags:
  "movingUp (poll_events es v) = key_flag SDL_SCANCODE_W es (movingUp v)"
  "movingDown (poll_events es v) = key_flag SDL_SCANCODE_S es (movingDown v)"
  "movingLeft (poll_events es v) = key_flag SDL_SCANCODE_A es (movingLeft v)"
  "movingRight (poll_events es v) = key_flag SDL_SCANCODE_D es (movingRight v)"
proof -
  show "movingUp (poll_events es v) = key_flag SDL_SCANCODE_W es (movingUp v)"
  proof (induction es arbitrary: v)
    case (Cons e es)
    show ?case
      by (simp only: poll_events.simps Cons.IH handle_event_flags key_flag_Cons [of _ e es])
  qed simp
  show "movingDown (poll_events es v) = key_flag SDL_SCANCODE_S es (movingDown v)"
  proof (induction es arbitrary: v)
    case (Cons e es)
    show ?case
      by (simp only: poll_events.simps Cons.IH handle_event_flags key_flag_Cons [of _ e es])
  qed simp
  show "movingLeft (poll_events es v) = key_flag SDL_SCANCODE_A es (movingLeft v)"
  proof (induction es arbitrary: v)
    case (Cons e es)
    show ?case
      by (simp only: poll_events.simps Cons.IH handle_event_flags key_flag_Cons [of _ e es])
  qed simp
  show "movingRight (poll_events es v) = key_flag SDL_SCANCODE_D es (movingRight v)"
  proof (induction es arbitrary: v)
    case (Cons e es)
    show ?case
      by (simp only: poll_events.simps Cons.IH handle_event_flags key_flag_Cons [of _ e es])
  qed simp
qed

lemma poll_events_append: "poll_events (es @ es') v = poll_events es' (poll_events es v)"
  by (induction es arbitrary: v) simp_all

section \<open>The position update, axis by axis\<close>

lemma apply_movement_X:
  "squareX (apply_movement v) = move_axis (movingLeft v) (movingRight v) (squareX v) (moveSpeed v)"
  by (simp add: apply_movement_def move_axis_def Let_def)

lemma apply_movement_Y:
  "squareY (apply_movement v) = move_axis (movingUp v) (movingDown v) (squareY v) (moveSpeed v)"
  by (simp add: apply_movement_def move_axis_def Let_def)

lemma apply_movement_fields [simp]:
  "squareSize (apply_movement v) = squareSize v" "moveSpeed (apply_movement v) = moveSpeed v"
  "windowWidth (apply_movement v) = windowWidth v"
  "windowHeight (apply_movement v) = windowHeight v"
  "movingUp (apply_movement v) = movingUp v" "movingDown (apply_movement v) = movingDown v"
  "movingLeft (apply_movement v) = movingLeft v" "movingRight (apply_movement v) = movingRight v"
  "running (apply_movement v) = running v"
  by (simp_all add: apply_movement_def Let_def)

lemma clamp_to_window_X:
  "squareX (clamp_to_window v) = clamp_axis (squareX v) (squareSize v) (windowWidth v)"
  by (simp add: clamp_to_window_def clamp_axis_def Let_def)

lemma clamp_to_window_Y:
  "squareY (clamp_to_window v) = clamp_axis (squareY v) (squareSize v) (windowHeight v)"
  by (simp add: clamp_to_window_def clamp_axis_def Let_def)

lemma clamp_to_window_fields [simp]:
  "squareSize (clamp_to_window v) = squareSize v" "moveSpeed (clamp_to_window v) = moveSpeed v"
  "windowWidth (clamp_to_window v) = windowWidth v"
  "windowHeight (clamp_to_window v) = windowHeight v"
  "movingUp (clamp_to_window v) = movingUp v" "movingDown (clamp_to_window v) = movingDown v"
  "movingLeft (clamp_to_window v) = movingLeft v"
  "movingRight (clamp_to_window v) = movingRight v"
  "running (clamp_to_window v) = running v"
  by (simp_all add: clamp_to_window_def Let_def)

lemma update_position_X:
  "squareX (update_position v) =
     clamp_axis (move_axis (movingLeft v) (movingRight v) (squareX v) (moveSpeed v))
       (squareSize v) (windowWidth v)"
  by (simp add: update_position_def clamp_to_window_X apply_movement_X)

lemma update_position_Y:
  "squareY (update_position v) =
     clamp_axis (move_axis (movingUp v) (movingDown v) (squareY v) (moveSpeed v))
       (squareSize v) (windowHeight v)"
  by (simp add: update_position_def clamp_to_window_Y apply_movement_Y)

lemma update_position_fields [simp]:
  "squareSize (update_position v) = squareSize v" "moveSpeed (update_position v) = moveSpeed v"
  "windowWidth (update_position v) = windowWidth v"
  "windowHeight (update_position v) = windowHeight v"
  "movingUp (update_position v) = movingUp v" "movingDown (update_position v) = movingDown v"
  "movingLeft (update_position v) = movingLeft v"
  "movingRight (update_position v) = movingRight v"
  "running (update_position v) = running v"
  by (simp_all add: update_position_def)

section \<open>One coordinate\<close>

lemma move_axis_not_NaN: "p \<noteq> NaN \<Longrightarrow> move_axis dec inc p (Fin s) \<noteq> NaN"
  by (simp add: move_axis_def Let_def f32_add_not_NaN f32_sub_not_NaN)

lemma move_axis_none [simp]: "move_axis False False p s = p"
  by (simp add: move_axis_def)

lemma move_axis_cancel:
  assumes "is_f32 y" and "is_f32 (y - s)"
  shows "move_axis True True (Fin y) (Fin s) = Fin y"
  using assms by (simp add: move_axis_def Let_def is_f32_exact)

text \<open>After the lower clamp a coordinate is zero or more, possibly infinite.\<close>

lemma lower_clamp_cases:
  assumes "p \<noteq> NaN"
  obtains (fin) a where "(if f32_lt p (Fin 0) then Fin 0 else p) = Fin a" and "0 \<le> a"
    | (inf) "(if f32_lt p (Fin 0) then Fin 0 else p) = PInf"
proof (cases p)
  case (Fin x)
  show ?thesis
  proof (cases "x < 0")
    case True
    with Fin have "(if f32_lt p (Fin 0) then Fin 0 else p) = Fin 0" by simp
    then show ?thesis by (rule fin) simp
  next
    case False
    with Fin have "(if f32_lt p (Fin 0) then Fin 0 else p) = Fin x" by simp
    moreover have "0 \<le> x" using False by simp
    ultimately show ?thesis by (rule fin)
  qed
next
  case PInf
  then have "(if f32_lt p (Fin 0) then Fin 0 else p) = PInf" by simp
  then show ?thesis by (rule inf)
next
  case NInf
  then have "(if f32_lt p (Fin 0) then Fin 0 else p) = Fin 0" by simp
  then show ?thesis by (rule fin) simp
next
  case NaN
  with assms show ?thesis by simp
qed

lemma f32_le_round_FinD:
  assumes "f32_le (f32_round q) (Fin W)" and "0 \<le> q"
  obtains r where "f32_round q = Fin r" and "0 \<le> r" and "r \<le> W"
proof -
  have "f32_le (f32_round 0) (f32_round q)" using assms(2) by (rule f32_round_mono)
  then have lo: "f32_le (Fin 0) (f32_round q)" by simp
  show ?thesis
  proof (cases "f32_round q")
    case (Fin r)
    with lo assms(1) have "0 \<le> r" "r \<le> W" by simp_all
    with Fin show ?thesis by (rule that)
  next
    case PInf with assms(1) show ?thesis by simp
  next
    case NInf with lo show ?thesis by simp
  next
    case NaN then show ?thesis by simp
  qed
qed

text \<open>
  The upper clamp in a window whose size \<open>W\<close> lies below 1024, where the spacing of the
  binary32 values is at most \<open>2 ^ - 14\<close>, and is such that \<open>W + 2 ^ - 15\<close> rounds to \<open>W\<close>
  (as 800 and 600 are).
\<close>

lemma round_error_below_1024:
  assumes "f32_round q = Fin r" and "0 \<le> q" and "q < 1024"
  shows "\<bar>r - q\<bar> \<le> 1 / 2 ^ 15"
proof -
  have "\<bar>q\<bar> * 2 ^ 149 < 2 ^ 10 * 2 ^ 149" using assms(2,3) by simp
  also have "(2::real) ^ 10 * 2 ^ 149 = 2 ^ (24 + 135)" by simp
  finally have "\<bar>r - q\<bar> \<le> 2 ^ 135 / 2 / 2 ^ 149" by (rule f32_round_error [OF assms(1)])
  also have "(2::real) ^ 135 / 2 / 2 ^ 149 = 1 / 2 ^ 15" by simp
  finally show ?thesis .
qed

lemma clamp_axis_bounds:
  assumes p: "p \<noteq> NaN"
    and W: "f32_round (W + 1 / 2 ^ 15) = Fin W" "W < 1024"
    and s: "0 \<le> s" "s \<le> W"
  shows "\<exists>a. clamp_axis p (Fin s) (Fin W) = Fin a \<and> 0 \<le> a \<and> a \<le> W - s + 1 / 2 ^ 15
    \<and> f32_le (f32_add (Fin a) (Fin s)) (Fin W)"
proof -
  define p1 where "p1 = (if f32_lt p (Fin 0) then Fin 0 else p)"
  have up: "f32_le (f32_round q) (Fin W)" if "q \<le> W + 1 / 2 ^ 15" for q
    using f32_round_mono [OF that] by (simp only: W(1))
  show ?thesis
  proof (cases "f32_gt (f32_add p1 (Fin s)) (Fin W)")
    case True
    then have res: "clamp_axis p (Fin s) (Fin W) = f32_round (W - s)"
      by (simp add: clamp_axis_def p1_def)
    have "f32_le (f32_round (W - s)) (Fin W)" using s by (intro up) simp
    then obtain a where a: "f32_round (W - s) = Fin a" "0 \<le> a" "a \<le> W"
      using s by (elim f32_le_round_FinD) simp_all
    have "\<bar>a - (W - s)\<bar> \<le> 1 / 2 ^ 15"
      using a(1) s W(2) by (intro round_error_below_1024) simp_all
    then have le: "a \<le> W - s + 1 / 2 ^ 15" by linarith
    then have "f32_le (f32_round (a + s)) (Fin W)" by (intro up) simp
    with res a le show ?thesis by simp
  next
    case False
    then have res: "clamp_axis p (Fin s) (Fin W) = p1"
      by (simp add: clamp_axis_def p1_def)
    from p show ?thesis
    proof (cases rule: lower_clamp_cases)
      case (fin a)
      then have p1: "p1 = Fin a" by (simp only: p1_def)
      have "\<not> f32_lt (Fin W) (f32_round (a + s))" using False by (simp add: p1 f32_gt_def)
      then have le: "f32_le (f32_round (a + s)) (Fin W)" by (intro f32_not_lt_le) simp_all
      then obtain r where r: "f32_round (a + s) = Fin r" "r \<le> W"
        using fin(2) s(1) by (elim f32_le_round_FinD) simp_all
      have "a + s < 1024"
      proof (rule ccontr)
        assume "\<not> a + s < 1024"
        then have "f32_le (f32_round 1024) (f32_round (a + s))" by (intro f32_round_mono) simp
        with r W(2) show False by simp
      qed
      then have "\<bar>r - (a + s)\<bar> \<le> 1 / 2 ^ 15"
        using r(1) fin(2) s(1) by (intro round_error_below_1024) simp_all
      with r(2) have "a \<le> W - s + 1 / 2 ^ 15" by linarith
      with res p1 fin(2) le show ?thesis by simp
    next
      case inf
      then have "p1 = PInf" by (simp only: p1_def)
      with False show ?thesis by (simp add: f32_gt_def)
    qed
  qed
qed

text \<open>A coordinate within the bounds is left alone.\<close>

lemma clamp_axis_inside:
  assumes "is_f32 W" and "0 \<le> x" and "x \<le> W - s"
  shows "clamp_axis (Fin x) (Fin s) (Fin W) = Fin x"
proof -
  have "f32_le (f32_round (x + s)) (f32_round W)" using assms(3) by (intro f32_round_mono) simp
  then have "f32_le (f32_round (x + s)) (Fin W)" using assms(1) by (simp add: is_f32_exact)
  then have "\<not> f32_lt (Fin W) (f32_round (x + s))" by (rule f32_le_not_lt)
  then show ?thesis using assms(2) by (simp add: clamp_axis_def f32_gt_def)
qed

text \<open>A square larger than the window: the upper clamp always fires.\<close>

lemma f32_round_negative:
  assumes "is_f32 W" and "is_f32 s" and "W < s"
  shows "f32_lt (f32_round (W - s)) (Fin 0)"
proof -
  define c :: real where "c = 2 ^ 149"
  have c: "0 < c" by (simp add: c_def)
  obtain i j :: int where i: "W * c = of_int i" and j: "s * c = of_int j"
    using is_f32_units [OF assms(1)] is_f32_units [OF assms(2)] unfolding c_def by blast
  have "W * c < s * c" using assms(3) c by simp
  then have "i < j" by (simp only: i j of_int_less_iff)
  then have "i - j \<le> - 1" by simp
  then have "(of_int (i - j) :: real) \<le> of_int (- 1)" by (simp only: of_int_le_iff)
  also have "(of_int (i - j) :: real) = W * c - s * c" by (simp add: i j)
  also have "\<dots> = (W - s) * c" by (simp add: algebra_simps)
  finally have "(W - s) * c \<le> - 1" by simp
  then have "W - s \<le> - 1 / c" using c by (simp add: field_simps)
  then have "f32_le (f32_round (W - s)) (f32_round (- 1 / c))" by (rule f32_round_mono)
  moreover have "f32_round (- 1 / c) = Fin (- 1 / c)" by (simp add: c_def f32_eval)
  ultimately have le: "f32_le (f32_round (W - s)) (Fin (- 1 / c))" by simp
  have neg: "- 1 / c < 0" using c by simp
  show ?thesis
  proof (cases "f32_round (W - s)")
    case (Fin r)
    with le have "r \<le> - 1 / c" by simp
    with neg have "r < 0" by linarith
    with Fin show ?thesis by simp
  next
    case PInf with le show ?thesis by simp
  next
    case NInf then show ?thesis by simp
  next
    case NaN with le show ?thesis by simp
  qed
qed

lemma clamp_axis_oversize:
  assumes p: "p \<noteq> NaN" and W: "is_f32 W" and s: "is_f32 s" and lt: "W < s"
  shows "clamp_axis p (Fin s) (Fin W) = f32_sub (Fin W) (Fin s)"
proof -
  define p1 where "p1 = (if f32_lt p (Fin 0) then Fin 0 else p)"
  have "f32_gt (f32_add p1 (Fin s)) (Fin W)"
    using p
  proof (cases rule: lower_clamp_cases)
    case (fin a)
    then have p1: "p1 = Fin a" by (simp only: p1_def)
    have "f32_le (f32_round s) (f32_round (a + s))" using fin(2) by (intro f32_round_mono) simp
    then have "f32_le (Fin s) (f32_round (a + s))" using s by (simp add: is_f32_exact)
    then have "f32_lt (Fin W) (f32_round (a + s))"
      using lt by (cases "f32_round (a + s)") simp_all
    then show ?thesis by (simp add: p1 f32_gt_def)
  next
    case inf
    then have "p1 = PInf" by (simp only: p1_def)
    then show ?thesis by (simp add: f32_gt_def)
  qed
  then show ?thesis by (simp add: clamp_axis_def p1_def)
qed

text \<open>
  Between 512 and 1024 the binary32 values are the multiples of \<open>2 ^ - 14\<close>.  When the size
  is a whole number and the window exceeds it by 512 or more, every sum that the upper test
  has to decide is exact, and so is the clamp.
\<close>

lemma f32_grid_512:
  assumes "is_f32 y" and "512 \<le> y" and "y < 1024"
  obtains k :: int where "y = of_int k / 2 ^ 14"
proof -
  define c :: real where "c = 2 ^ 149"
  have c: "0 < c" by (simp add: c_def)
  define u where "u = y * c"
  have pos: "0 \<le> u" using assms(2) c by (simp add: u_def)
  have "y * c < 2 ^ 10 * c" using assms(3) c by simp
  also have "2 ^ 10 * c = 2 ^ (24 + 135)" by (simp add: c_def)
  finally have "\<bar>u\<bar> < 2 ^ (24 + 135)" using pos by (simp add: u_def)
  then have up: "binade_of u \<le> 135" by (rule binade_of_le)
  have "(2::real) ^ 158 = 2 ^ 9 * c" by (simp add: c_def)
  also have "\<dots> \<le> y * c" using assms(2) c by simp
  also have "\<dots> = \<bar>u\<bar>" using pos by (simp add: u_def)
  also have "\<dots> < 2 ^ (24 + binade_of u)" by (rule abs_less_binade)
  finally have "158 < 24 + binade_of u" by (simp only: power_strict_increasing_iff) 
  with up have b: "binade_of u = 135" by simp
  have "u = of_int (round_units u)"
    using is_f32_units [OF assms(1)] by (simp only: u_def c_def)
  then have "u = of_int (rne (u / 2 ^ 135)) * 2 ^ 135" by (simp add: round_units_def b)
  then have "y * c = of_int (rne (u / 2 ^ 135)) * 2 ^ 135" by (simp only: u_def)
  moreover have "c = 2 ^ 135 * 2 ^ 14" by (simp add: c_def)
  ultimately have "y * 2 ^ 14 = of_int (rne (u / 2 ^ 135))" by simp
  then have "y = of_int (rne (u / 2 ^ 135)) / 2 ^ 14" by (simp add: field_simps)
  then show ?thesis by (rule that)
qed

lemma f32_ok_move_axis: "f32_ok p \<Longrightarrow> f32_ok (move_axis dec inc p s)"
  by (simp add: move_axis_def Let_def f32_add_ok f32_sub_ok)

lemma clamp_axis_exact:
  assumes ok: "f32_ok p" and p: "p \<noteq> NaN"
    and j: "0 \<le> j" and W: "W \<le> 1023" "512 \<le> W - j"
  shows "\<exists>a. clamp_axis p (Fin (of_int j)) (Fin (of_int W)) = Fin a \<and> 0 \<le> a
    \<and> a \<le> of_int W - of_int j"
proof -
  define p1 where "p1 = (if f32_lt p (Fin 0) then Fin 0 else p)"
  have ok1: "f32_ok p1" using ok by (simp add: p1_def)
  have "is_f32 (of_int (W - j))" using j W by (intro is_f32_of_int) simp
  then have diff: "f32_round (of_int W - of_int j) = Fin (of_int W - of_int j)"
    by (simp add: is_f32_def)
  have "is_f32 (of_int W)" using j W by (intro is_f32_of_int) simp
  then have Wf: "f32_round (of_int W) = Fin (of_int W)" by (simp add: is_f32_def)
  have big: False if "1024 \<le> q" "f32_le (f32_round q) (Fin (of_int W))" for q
  proof -
    have "f32_le (f32_round 1024) (f32_round q)" using that(1) by (rule f32_round_mono)
    then have "f32_le (Fin 1024) (f32_round q)" by simp
    then have "f32_le (Fin 1024) (Fin (of_int W))" using that(2) by (rule f32_le_trans)
    then have "(1024::real) \<le> of_int W" by simp
    then have "(1024::int) \<le> W" by linarith
    with W(1) show False by simp
  qed
  show ?thesis
  proof (cases "f32_gt (f32_add p1 (Fin (of_int j))) (Fin (of_int W))")
    case True
    then have "clamp_axis p (Fin (of_int j)) (Fin (of_int W)) = Fin (of_int W - of_int j)"
      by (simp add: clamp_axis_def p1_def diff)
    moreover have "(0::real) \<le> of_int W - of_int j" using W(2) by simp
    ultimately show ?thesis by simp
  next
    case False
    then have res: "clamp_axis p (Fin (of_int j)) (Fin (of_int W)) = p1"
      by (simp add: clamp_axis_def p1_def)
    from p show ?thesis
    proof (cases rule: lower_clamp_cases)
      case (fin a)
      then have p1: "p1 = Fin a" by (simp only: p1_def)
      with ok1 have fa: "is_f32 a" by simp
      have "\<not> f32_lt (Fin (of_int W)) (f32_round (a + of_int j))"
        using False by (simp add: p1 f32_gt_def)
      then have le: "f32_le (f32_round (a + of_int j)) (Fin (of_int W))"
        by (intro f32_not_lt_le) simp_all
      have sum: "a + of_int j < 1024" using big [OF _ le] by fastforce
      have "a \<le> of_int W - of_int j"
      proof (cases "a < 512")
        case True
        moreover have "(512::real) \<le> of_int W - of_int j" using W(2) by linarith
        ultimately show ?thesis by simp
      next
        case False
        then have lo: "512 \<le> a" by simp
        have "a < 1024" using sum j by (simp add: less_le_trans add_increasing2)
        with fa lo obtain k :: int where k: "a = of_int k / 2 ^ 14" by (rule f32_grid_512)
        have eq: "a + of_int j = of_int (k + j * 2 ^ 14) / 2 ^ 14" by (simp add: k field_simps)
        have "0 \<le> a + of_int j" using lo j by simp
        then have "(0::real) \<le> of_int (k + j * 2 ^ 14)" by (simp add: eq)
        then have k0: "0 \<le> k + j * 2 ^ 14" by (simp only: of_int_0_le_iff)
        have "of_int (k + j * 2 ^ 14) / 2 ^ 14 < (1024::real)" using sum by (simp only: eq)
        then have "(of_int (k + j * 2 ^ 14) :: real) < of_int (2 ^ 24)" by (simp add: field_simps)
        then have "k + j * 2 ^ 14 < 2 ^ 24" by (simp only: of_int_less_iff)
        with k0 have "\<bar>k + j * 2 ^ 14\<bar> \<le> 2 ^ 24" by simp
        then have "is_f32 (of_int (k + j * 2 ^ 14) / 2 ^ 14)" by (intro is_f32_scaled) simp_all
        then have "f32_round (a + of_int j) = Fin (a + of_int j)" by (simp only: eq is_f32_def)
        with le show ?thesis by simp
      qed
      with res p1 fin(2) show ?thesis by simp
    next
      case inf
      then have "p1 = PInf" by (simp only: p1_def)
      with False show ?thesis by (simp add: f32_gt_def)
    qed
  qed
qed

lemma no_upper_clamp:
  assumes "is_f32 W" and "x \<le> W - s"
  shows "\<not> f32_gt (f32_add (Fin x) (Fin s)) (Fin W)"
proof -
  have "f32_le (f32_round (x + s)) (f32_round W)" using assms(2) by (intro f32_round_mono) simp
  then have "f32_le (f32_round (x + s)) (Fin W)" using assms(1) by (simp add: is_f32_exact)
  then have "\<not> f32_lt (Fin W) (f32_round (x + s))" by (rule f32_le_not_lt)
  then show ?thesis by (simp add: f32_gt_def)
qed

lemma round_800_tie: "f32_round (800 + 1 / 2 ^ 15) = Fin 800"
  by (simp add: f32_eval)

lemma round_600_tie: "f32_round (600 + 1 / 2 ^ 15) = Fin 600"
  by (simp add: f32_eval)

section \<open>The frame pacer\<close>

lemma targetFrameTimeMS_value: "targetFrameTimeMS = Fin (8738133 / 2 ^ 19)"
  by (simp add: targetFrameTimeMS_def f32_eval)

lemma is_f32_target: "is_f32 (8738133 / 2 ^ 19)"
  by (simp add: f32_eval)

lemma f32_round_nonneg: "0 \<le> q \<Longrightarrow> f32_nonneg (f32_round q)"
proof -
  assume "0 \<le> q"
  then have "f32_le (f32_round 0) (f32_round q)" by (rule f32_round_mono)
  then show ?thesis by (cases "f32_round q") simp_all
qed

lemma u64_to_f32_nonneg: "f32_nonneg (u64_to_f32 w)"
  unfolding u64_to_f32_def by (rule f32_round_nonneg) (simp only: of_nat_0_le_iff)

lemma f32_div_nonneg: "f32_nonneg x \<Longrightarrow> f32_nonneg y \<Longrightarrow> f32_nonneg (f32_div x y)"
  by (cases x; cases y) (simp_all add: f32_round_nonneg)

lemma f32_mul_nonneg: "f32_nonneg x \<Longrightarrow> 0 < b \<Longrightarrow> f32_nonneg (f32_mul x (Fin b))"
  by (cases x) (simp_all add: f32_round_nonneg)

text \<open>The measured time is never negative: the counter difference is unsigned.\<close>

lemma elapsedMS_nonneg: "f32_nonneg (elapsedMS f)"
  unfolding elapsedMS_def
  by (intro f32_mul_nonneg f32_div_nonneg u64_to_f32_nonneg) simp

lemma round_error_below_32:
  assumes "f32_round q = Fin r" and "0 \<le> q" and "q < 32"
  shows "\<bar>r - q\<bar> \<le> 1 / 2 ^ 20"
proof -
  have "\<bar>q\<bar> * 2 ^ 149 < 2 ^ 5 * 2 ^ 149" using assms(2,3) by simp
  also have "(2::real) ^ 5 * 2 ^ 149 = 2 ^ (24 + 130)" by simp
  finally have "\<bar>r - q\<bar> \<le> 2 ^ 130 / 2 / 2 ^ 149" by (rule f32_round_error [OF assms(1)])
  also have "(2::real) ^ 130 / 2 / 2 ^ 149 = 1 / 2 ^ 20" by simp
  finally show ?thesis .
qed

lemma uint_word_of_floor:
  assumes "0 \<le> d" and "d < 2 ^ 32"
  shows "uint (word_of_int \<lfloor>d\<rfloor> :: 32 word) = \<lfloor>d\<rfloor>"
proof -
  have "0 \<le> \<lfloor>d\<rfloor>" using assms(1) by simp
  moreover have "\<lfloor>d\<rfloor> < 2 ^ 32" using assms(2) by (simp add: floor_less_iff)
  ultimately show ?thesis by (simp add: uint_word_of_int take_bit_int_eq_self)
qed

lemma frame_pacer_early:
  assumes "f32_nonneg elapsed" and "f32_lt elapsed targetFrameTimeMS"
  obtains e d where "elapsed = Fin e" and "0 \<le> e" and "e < 8738133 / 2 ^ 19"
    and "f32_sub targetFrameTimeMS elapsed = Fin d" and "0 \<le> d" and "d \<le> 8738133 / 2 ^ 19"
    and "\<bar>d - (8738133 / 2 ^ 19 - e)\<bar> \<le> 1 / 2 ^ 20"
    and "frame_pacer elapsed = Inr [SDL_Delay (word_of_int \<lfloor>d\<rfloor>)]"
proof -
  let ?T = "8738133 / 2 ^ 19 :: real"
  from assms obtain e where e: "elapsed = Fin e" "0 \<le> e" "e < ?T"
    by (cases elapsed) (simp_all add: targetFrameTimeMS_value)
  have "f32_le (f32_round (?T - e)) (f32_round ?T)" using e(2) by (intro f32_round_mono) simp
  then have "f32_le (f32_round (?T - e)) (Fin ?T)"
    using is_f32_target by (simp only: is_f32_exact)
  then obtain d where d: "f32_round (?T - e) = Fin d" "0 \<le> d" "d \<le> ?T"
    using e(3) by (elim f32_le_round_FinD) simp_all
  have sub: "f32_sub targetFrameTimeMS elapsed = Fin d"
    using d(1) by (simp only: targetFrameTimeMS_value e(1) f32_sub_Fin)
  have err: "\<bar>d - (?T - e)\<bar> \<le> 1 / 2 ^ 20"
    using d(1) e(2,3) by (intro round_error_below_32) simp_all
  have "d < 2 ^ 32" using d(3) by simp
  then have "f32_to_u32 (Fin d) = Some (word_of_int \<lfloor>d\<rfloor>)"
    using d(2) by (simp add: trunc_def)
  then have "frame_pacer elapsed = Inr [SDL_Delay (word_of_int \<lfloor>d\<rfloor>)]"
    using assms(2) sub by (simp add: frame_pacer_def)
  with e sub d(2,3) err show ?thesis by (rule that)
qed

lemma frame_pacer_late:
  "\<not> f32_lt elapsed targetFrameTimeMS \<Longrightarrow> frame_pacer elapsed = Inr []"
  by (simp add: frame_pacer_def)

lemma frame_pacer_pace_of:
  assumes "f32_nonneg elapsed"
  shows "frame_pacer elapsed = Inr (pace_of elapsed)"
proof (cases "f32_lt elapsed targetFrameTimeMS")
  case True
  show ?thesis by (rule frame_pacer_early [OF assms True]) (simp add: pace_of_def)
next
  case False
  then show ?thesis by (simp add: pace_of_def frame_pacer_late)
qed

lemma pace_of_cases:
  obtains (none) "pace_of elapsed = []" | (delay) ms where "pace_of elapsed = [SDL_Delay ms]"
  by (cases "f32_lt elapsed targetFrameTimeMS";
      cases "f32_to_u32 (f32_sub targetFrameTimeMS elapsed)")
    (simp_all add: pace_of_def frame_pacer_def)

lemma filter_delay_pace_of [simp]: "filter is_delay (pace_of elapsed) = pace_of elapsed"
  by (rule pace_of_cases [of elapsed]) simp_all

lemma count_pace_of [simp]: "count_list (pace_of elapsed) SDL_RenderPresent = 0"
  by (rule pace_of_cases [of elapsed]) simp_all

lemma set_pace_of:
  "SDL_DestroyRenderer \<notin> set (pace_of elapsed)" "SDL_DestroyWindow \<notin> set (pace_of elapsed)"
  "SDL_Quit \<notin> set (pace_of elapsed)"
  by (rule pace_of_cases [of elapsed]; simp)+

section \<open>The loop\<close>

lemma frame_step_running:
  "running (frame_step f v) = (running v \<and> SDL_EVENT_QUIT \<notin> set (events f))"
  by (simp add: frame_step_def poll_events_running)

lemma game_loop_stopped: "\<not> running v \<Longrightarrow> game_loop fs v = Inr ([], v)"
  by (subst game_loop.simps) simp

lemma game_loop_Nil: "running v \<Longrightarrow> game_loop [] v = Inl Frames_exhausted"
  by (subst game_loop.simps) simp

lemma game_loop_Cons:
  "running v \<Longrightarrow> game_loop (f # fs) v =
     (case game_loop fs (frame_step f v) of
        Inl e \<Rightarrow> Inl e
      | Inr (tr, v') \<Rightarrow> Inr (render (frame_step f v) @ pace_of (elapsedMS f) @ tr, v'))"
  unfolding frame_step_def
  by (subst game_loop.simps) (simp add: frame_pacer_pace_of [OF elapsedMS_nonneg] Let_def)

lemma game_loop_exhausted:
  "running v \<Longrightarrow> \<forall>f\<in>set fs. SDL_EVENT_QUIT \<notin> set (events f) \<Longrightarrow>
     game_loop fs v = Inl Frames_exhausted"
proof (induction fs arbitrary: v)
  case Nil
  then show ?case by (simp add: game_loop_Nil)
next
  case (Cons f fs)
  then have "running (frame_step f v)" by (simp add: frame_step_running)
  then have "game_loop fs (frame_step f v) = Inl Frames_exhausted"
    using Cons.prems(2) by (intro Cons.IH) simp_all
  then show ?case using Cons.prems(1) by (simp add: game_loop_Cons)
qed

lemma game_loop_quit:
  "running v \<Longrightarrow> \<forall>f\<in>set pre. SDL_EVENT_QUIT \<notin> set (events f) \<Longrightarrow>
     SDL_EVENT_QUIT \<in> set (events q) \<Longrightarrow>
     game_loop (pre @ q # rest) v = Inr (run_frames (pre @ [q]) v)"
proof (induction pre arbitrary: v)
  case Nil
  then have "\<not> running (frame_step q v)" by (simp add: frame_step_running)
  then have "game_loop rest (frame_step q v) = Inr ([], frame_step q v)"
    by (rule game_loop_stopped)
  then show ?case using Nil.prems(1) by (simp add: game_loop_Cons)
next
  case (Cons f pre)
  then have "running (frame_step f v)" by (simp add: frame_step_running)
  then have "game_loop (pre @ q # rest) (frame_step f v) = Inr (run_frames (pre @ [q]) (frame_step f v))"
    using Cons.prems(2,3) by (intro Cons.IH) simp_all
  then show ?case using Cons.prems(1) by (simp add: game_loop_Cons split: prod.splits)
qed

lemma game_loop_prefix:
  "game_loop fs v = Inr r \<Longrightarrow> \<exists>n\<le>length fs. r = run_frames (take n fs) v"
proof (induction fs arbitrary: v r)
  case Nil
  then show ?case by (cases "running v") (simp_all add: game_loop_Nil game_loop_stopped)
next
  case (Cons f fs)
  show ?case
  proof (cases "running v")
    case False
    with Cons.prems have "r = run_frames (take 0 (f # fs)) v" by (simp add: game_loop_stopped)
    then show ?thesis by blast
  next
    case True
    with Cons.prems obtain r' where r': "game_loop fs (frame_step f v) = Inr r'"
      and r: "r = (render (frame_step f v) @ pace_of (elapsedMS f) @ fst r', snd r')"
      by (auto simp add: game_loop_Cons split: sum.splits)
    from Cons.IH [OF r'] obtain n where n: "n \<le> length fs" "r' = run_frames (take n fs) (frame_step f v)"
      by blast
    have "r = run_frames (take (Suc n) (f # fs)) v"
      using r n(2) by (simp split: prod.splits)
    moreover have "Suc n \<le> length (f # fs)" using n(1) by simp
    ultimately show ?thesis by blast
  qed
qed

lemma run_frames_Cons:
  "run_frames (f # fs) v =
     (render (frame_step f v) @ pace_of (elapsedMS f) @ fst (run_frames fs (frame_step f v)),
      snd (run_frames fs (frame_step f v)))"
  by (simp add: case_prod_beta)

lemma run_frames_append:
  "run_frames (fs @ gs) v =
     (fst (run_frames fs v) @ fst (run_frames gs (snd (run_frames fs v))),
      snd (run_frames gs (snd (run_frames fs v))))"
  by (induction fs arbitrary: v) (simp_all add: run_frames_Cons del: run_frames.simps(2))

lemma run_frames_delays:
  "filter is_delay (fst (run_frames fs v)) = concat (map (\<lambda>f. pace_of (elapsedMS f)) fs)"
  by (induction fs arbitrary: v)
    (simp_all add: run_frames_Cons render_def del: run_frames.simps(2))

lemma run_frames_presents:
  "count_list (fst (run_frames fs v)) SDL_RenderPresent = length fs"
  by (induction fs arbitrary: v)
    (simp_all add: run_frames_Cons render_def del: run_frames.simps(2))

lemma run_frames_no_cleanup:
  "SDL_DestroyRenderer \<notin> set (fst (run_frames fs v))"
  "SDL_DestroyWindow \<notin> set (fst (run_frames fs v))"
  "SDL_Quit \<notin> set (fst (run_frames fs v))"
  by (induction fs arbitrary: v;
      simp add: run_frames_Cons render_def set_pace_of del: run_frames.simps(2))+

lemma quit_frame_split:
  assumes "\<exists>f\<in>set fs. SDL_EVENT_QUIT \<in> set (events f)"
  obtains pre q rest where "fs = pre @ q # rest"
    and "\<forall>f\<in>set pre. SDL_EVENT_QUIT \<notin> set (events f)" and "SDL_EVENT_QUIT \<in> set (events q)"
  using split_list_first_prop [OF assms] by blast

lemma initial_locals_running [simp]: "running (initial_locals w)"
  by (simp add: initial_locals_def)

section \<open>Concrete runs\<close>

lemma round_target [simp]: "f32_round (8738133 / 524288) = Fin (8738133 / 524288)"
  using is_f32_target by (simp add: is_f32_def)

lemma elapsedMS_0_0_1:
  "elapsedMS \<lparr>events = es, frameStart = 0, frameEnd = 0, perfFrequency = 1\<rparr> = Fin 0"
  by (simp add: elapsedMS_def u64_to_f32_def)

lemma elapsedMS_0_5_1000:
  "elapsedMS \<lparr>events = es, frameStart = 0, frameEnd = 5, perfFrequency = 1000\<rparr> = Fin 5"
proof -
  have a: "f32_round (5 / 1000) = Fin (5368709 / 2 ^ 30)" by (simp add: f32_eval)
  have b: "f32_round (5368709 / 2 ^ 30 * 1000) = Fin 5" by (simp add: f32_eval)
  show ?thesis using a b by (simp add: elapsedMS_def u64_to_f32_def)
qed

lemma elapsedMS_0_20_1000:
  "elapsedMS \<lparr>events = es, frameStart = 0, frameEnd = 20, perfFrequency = 1000\<rparr> = Fin 20"
proof -
  have a: "f32_round (20 / 1000) = Fin (5368709 / 2 ^ 28)" by (simp add: f32_eval)
  have b: "f32_round (5368709 / 2 ^ 28 * 1000) = Fin 20" by (simp add: f32_eval)
  show ?thesis using a b by (simp add: elapsedMS_def u64_to_f32_def)
qed

lemma target_minus_5: "f32_sub targetFrameTimeMS (Fin 5) = Fin (6116693 / 2 ^ 19)"
  by (simp add: targetFrameTimeMS_value f32_eval)

lemma pace_of_0: "pace_of (Fin 0) = [SDL_Delay 16]"
  by (simp add: pace_of_def frame_pacer_def targetFrameTimeMS_value trunc_def)

lemma initial_locals_800_600:
  "initial_locals \<lparr>init_ok = i, create_ok = c, windowWidthInt = 800, windowHeightInt = 600,
      frames = fs\<rparr>
   = \<lparr>squareX = Fin 100, squareY = Fin 100, squareSize = Fin 50, moveSpeed = Fin 5,
      windowWidth = Fin 800, windowHeight = Fin 600, movingUp = False, movingDown = False,
      movingLeft = False, movingRight = False, running = True\<rparr>"
  by (simp add: initial_locals_def int_to_f32_def)

lemma frame_step_right_quit:
  "frame_step \<lparr>events = [SDL_EVENT_KEY_DOWN SDL_SCANCODE_D, SDL_EVENT_QUIT], frameStart = a,
       frameEnd = b, perfFrequency = c\<rparr>
     \<lparr>squareX = Fin 100, squareY = Fin 100, squareSize = Fin 50, moveSpeed = Fin 5,
      windowWidth = Fin 800, windowHeight = Fin 600, movingUp = False, movingDown = False,
      movingLeft = False, movingRight = False, running = True\<rparr>
   = \<lparr>squareX = Fin 105, squareY = Fin 100, squareSize = Fin 50, moveSpeed = Fin 5,
      windowWidth = Fin 800, windowHeight = Fin 600, movingUp = False, movingDown = False,
      movingLeft = False, movingRight = True, running = False\<rparr>"
  by (simp add: frame_step_def update_position_def apply_movement_def clamp_to_window_def
      f32_gt_def)

section \<open>The claims\<close>

text \<open>
  C1, as stated: for every input position, every intent, every move speed of zero or more,
  and every size up to the smaller window side, with a window of 800 by 600, one update
  yields \<open>0 \<le> x \<le> 800 - size\<close> and \<open>0 \<le> y \<le> 600 - size\<close>.  It fails in single precision.
  Take size 100, move speed 5, the down flag, and \<open>y = 495 + 2 ^ - 15\<close>, a binary32 value
  within the bounds.  The move gives \<open>500 + 2 ^ - 15\<close> exactly.  The sum \<open>y + size\<close> then
  lies halfway between 600 and the next value above it and rounds to 600, so the test
  \<^verbatim>\<open>squareY + squareSize > windowHeight\<close> is false and \<open>y\<close> stays above \<open>600 - 100\<close>, as
  a real number and also as the binary32 difference.
\<close>

theorem position_bounds_counterexample:
  "squareY (update_position
     \<lparr>squareX = Fin 100, squareY = Fin (495 + 1 / 2 ^ 15), squareSize = Fin 100,
      moveSpeed = Fin 5, windowWidth = Fin 800, windowHeight = Fin 600, movingUp = False,
      movingDown = True, movingLeft = False, movingRight = False, running = True\<rparr>)
     = Fin (500 + 1 / 2 ^ 15)
   \<and> \<not> (500 + 1 / 2 ^ 15 \<le> (600::real) - 100)
   \<and> \<not> f32_le (Fin (500 + 1 / 2 ^ 15)) (f32_sub (Fin 600) (Fin 100))
   \<and> is_f32 (495 + 1 / 2 ^ 15) \<and> 495 + 1 / 2 ^ 15 \<le> (600::real) - 100
   \<and> (100::real) \<le> min 800 600 \<and> (0::real) \<le> 5"
proof -
  have a: "f32_round (495 + 1 / 2 ^ 15 + 5) = Fin (500 + 1 / 2 ^ 15)" by (simp add: f32_eval)
  have b: "f32_round (500 + 1 / 2 ^ 15 + 100) = Fin 600" by (simp add: f32_eval)
  have c: "is_f32 (495 + 1 / 2 ^ 15)" by (simp add: f32_eval)
  show ?thesis
    using a b c
    by (simp add: update_position_Y move_axis_def clamp_axis_def f32_gt_def)
qed

text \<open>
  C1, amended.  For every input position whose coordinates are numbers (finite or infinite,
  within the bounds or not), every intent, every finite move speed and every size from 0 to
  600 in a window of 800 by 600, one update yields a finite position with \<open>0 \<le> x\<close> and
  \<open>0 \<le> y\<close> for which both upper tests of the code are false in single precision: the
  rounded sums \<open>x + size\<close> and \<open>y + size\<close> are at most 800 and 600.  As real numbers,
  \<open>x \<le> 800 - size + 2 ^ - 15\<close> and \<open>y \<le> 600 - size + 2 ^ - 15\<close>: the bounds of the claim
  up to one rounding error.  When the input coordinates are binary32 values and the size is
  a whole number of at most 88 (as the 50 of the program is), the bounds of the claim hold
  as stated: \<open>x \<le> 800 - size\<close> and \<open>y \<le> 600 - size\<close>.
\<close>

theorem position_bounds_rounded:
  assumes "squareX v \<noteq> NaN" and "squareY v \<noteq> NaN" and "moveSpeed v = Fin sp"
    and "squareSize v = Fin s" and "windowWidth v = Fin 800" and "windowHeight v = Fin 600"
    and "0 \<le> s" and "s \<le> 600"
  shows "\<exists>a b. squareX (update_position v) = Fin a \<and> squareY (update_position v) = Fin b
    \<and> 0 \<le> a \<and> 0 \<le> b
    \<and> f32_le (f32_add (Fin a) (Fin s)) (Fin 800) \<and> f32_le (f32_add (Fin b) (Fin s)) (Fin 600)
    \<and> a \<le> 800 - s + 1 / 2 ^ 15 \<and> b \<le> 600 - s + 1 / 2 ^ 15
    \<and> (f32_ok (squareX v) \<and> f32_ok (squareY v) \<and> s \<in> \<int> \<and> s \<le> 88 \<longrightarrow>
          a \<le> 800 - s \<and> b \<le> 600 - s)"
proof -
  let ?mx = "move_axis (movingLeft v) (movingRight v) (squareX v) (Fin sp)"
  let ?my = "move_axis (movingUp v) (movingDown v) (squareY v) (Fin sp)"
  have X: "squareX (update_position v) = clamp_axis ?mx (Fin s) (Fin 800)"
    using assms(3,4,5) by (simp add: update_position_X)
  have Y: "squareY (update_position v) = clamp_axis ?my (Fin s) (Fin 600)"
    using assms(3,4,6) by (simp add: update_position_Y)
  have nx: "?mx \<noteq> NaN" using assms(1) by (rule move_axis_not_NaN)
  have ny: "?my \<noteq> NaN" using assms(2) by (rule move_axis_not_NaN)
  have "\<exists>a. clamp_axis ?mx (Fin s) (Fin 800) = Fin a \<and> 0 \<le> a \<and> a \<le> 800 - s + 1 / 2 ^ 15
      \<and> f32_le (f32_add (Fin a) (Fin s)) (Fin 800)"
    using nx assms(7,8) by (intro clamp_axis_bounds round_800_tie) simp_all
  then obtain a where a: "squareX (update_position v) = Fin a" "0 \<le> a"
    "a \<le> 800 - s + 1 / 2 ^ 15" "f32_le (f32_add (Fin a) (Fin s)) (Fin 800)"
    unfolding X by blast
  have "\<exists>b. clamp_axis ?my (Fin s) (Fin 600) = Fin b \<and> 0 \<le> b \<and> b \<le> 600 - s + 1 / 2 ^ 15
      \<and> f32_le (f32_add (Fin b) (Fin s)) (Fin 600)"
    using ny assms(7,8) by (intro clamp_axis_bounds round_600_tie) simp_all
  then obtain b where b: "squareY (update_position v) = Fin b" "0 \<le> b"
    "b \<le> 600 - s + 1 / 2 ^ 15" "f32_le (f32_add (Fin b) (Fin s)) (Fin 600)"
    unfolding Y by blast
  have exact: "a \<le> 800 - s \<and> b \<le> 600 - s"
    if ok: "f32_ok (squareX v)" "f32_ok (squareY v)" and whole: "s \<in> \<int>" "s \<le> 88"
  proof -
    from whole(1) obtain j :: int where s: "s = of_int j" by (rule Ints_cases)
    have j: "0 \<le> j" "j \<le> 88" using assms(7) whole(2) by (simp_all add: s)
    have "\<exists>a'. clamp_axis ?mx (Fin (of_int j)) (Fin (of_int 800)) = Fin a' \<and> 0 \<le> a'
        \<and> a' \<le> of_int 800 - of_int j"
      using ok(1) nx j by (intro clamp_axis_exact f32_ok_move_axis) simp_all
    then have "a \<le> 800 - s" using a(1) by (auto simp add: X s)
    moreover have "\<exists>b'. clamp_axis ?my (Fin (of_int j)) (Fin (of_int 600)) = Fin b' \<and> 0 \<le> b'
        \<and> b' \<le> of_int 600 - of_int j"
      using ok(2) ny j by (intro clamp_axis_exact f32_ok_move_axis) simp_all
    then have "b \<le> 600 - s" using b(1) by (auto simp add: Y s)
    ultimately show ?thesis ..
  qed
  from a b exact show ?thesis by blast
qed

theorem position_bounds_rounded_witness:
  "Fin 100 \<noteq> NaN \<and> (0::real) \<le> 50 \<and> (50::real) \<le> 600 \<and> f32_ok (Fin 100)
   \<and> (50::real) \<in> \<int> \<and> (50::real) \<le> 88
   \<and> (\<exists>a b. squareX (update_position
         \<lparr>squareX = Fin 100, squareY = Fin 100, squareSize = Fin 50, moveSpeed = Fin 5,
          windowWidth = Fin 800, windowHeight = Fin 600, movingUp = False, movingDown = True,
          movingLeft = False, movingRight = True, running = True\<rparr>) = Fin a
       \<and> squareY (update_position
         \<lparr>squareX = Fin 100, squareY = Fin 100, squareSize = Fin 50, moveSpeed = Fin 5,
          windowWidth = Fin 800, windowHeight = Fin 600, movingUp = False, movingDown = True,
          movingLeft = False, movingRight = True, running = True\<rparr>) = Fin b
       \<and> 0 \<le> a \<and> 0 \<le> b
       \<and> f32_le (f32_add (Fin a) (Fin 50)) (Fin 800) \<and> f32_le (f32_add (Fin b) (Fin 50)) (Fin 600)
       \<and> a \<le> 800 - 50 \<and> b \<le> 600 - 50)"
proof -
  have "(50::real) \<in> \<int>" by simp
  with position_bounds_rounded [of
     "\<lparr>squareX = Fin 100, squareY = Fin 100, squareSize = Fin 50, moveSpeed = Fin 5,
      windowWidth = Fin 800, windowHeight = Fin 600, movingUp = False, movingDown = True,
      movingLeft = False, movingRight = True, running = True\<rparr>" 5 50]
  show ?thesis by simp blast
qed

text \<open>
  C2, as stated: in the iteration in which the drain observes a quit event, no position
  update and no render submission occur.  The code does otherwise: \<^verbatim>\<open>running = false\<close>
  only ends the \<^verbatim>\<open>switch\<close>, and \<open>running\<close> is tested at the top of the loop.  In a run
  whose single frame holds a press of D and then a quit event, the square moves from 100 to
  105 and the frame is rendered and presented, and paced, before the cleanup.
\<close>

theorem quit_iteration_counterexample:
  "main
     \<lparr>init_ok = True, create_ok = True, windowWidthInt = 800, windowHeightInt = 600,
      frames = [\<lparr>events = [SDL_EVENT_KEY_DOWN SDL_SCANCODE_D, SDL_EVENT_QUIT],
                 frameStart = 0, frameEnd = 0, perfFrequency = 1\<rparr>]\<rparr>
   = Inr ([SDL_Init, SDL_CreateWindowAndRenderer,
           SDL_SetRenderDrawColor 0 0 0 255, SDL_RenderClear,
           SDL_SetRenderDrawColor 255 0 0 255,
           SDL_RenderFillRect (Fin 105) (Fin 100) (Fin 50) (Fin 50), SDL_RenderPresent,
           SDL_Delay 16,
           SDL_DestroyRenderer, SDL_DestroyWindow, SDL_Quit], 0)"
  by (simp add: main_def initial_locals_800_600 game_loop_Cons game_loop_stopped
      frame_step_right_quit elapsedMS_0_0_1 pace_of_0 render_def)

text \<open>
  C2, amended.  In the iteration in which the drain observes a quit event, the rest of the
  queue is still drained and the iteration is completed: one position update, one render
  submission and the pacing.  After that iteration nothing more is updated or rendered, whatever
  the later frames hold: the loop ends, and the renderer is destroyed, then the window, each
  exactly once, before \<^verbatim>\<open>SDL_Quit\<close> and the exit with code 0.
\<close>

theorem quit_completes_frame_then_stops:
  assumes "init_ok w" and "create_ok w" and "frames w = pre @ q # rest"
    and "\<forall>f\<in>set pre. SDL_EVENT_QUIT \<notin> set (events f)"
    and "SDL_EVENT_QUIT \<in> set (events q)"
  shows "\<exists>tr v v'. run_frames pre (initial_locals w) = (tr, v)
    \<and> v' = update_position (poll_events (events q) v)
    \<and> main w =
        Inr ([SDL_Init, SDL_CreateWindowAndRenderer] @ tr @ render v' @ pace_of (elapsedMS q) @
             [SDL_DestroyRenderer, SDL_DestroyWindow, SDL_Quit], 0)
    \<and> game_loop (frames w) (initial_locals w) = Inr (tr @ render v' @ pace_of (elapsedMS q), v')
    \<and> count_list (tr @ render v' @ pace_of (elapsedMS q)) SDL_RenderPresent = length pre + 1
    \<and> count_list (render v' @ pace_of (elapsedMS q)) SDL_RenderPresent = 1
    \<and> SDL_DestroyRenderer \<notin> set (tr @ render v' @ pace_of (elapsedMS q))
    \<and> SDL_DestroyWindow \<notin> set (tr @ render v' @ pace_of (elapsedMS q))
    \<and> SDL_Quit \<notin> set (tr @ render v' @ pace_of (elapsedMS q))
    \<and> \<not> running v'"
proof -
  define v0 where "v0 = initial_locals w"
  define tr where "tr = fst (run_frames pre v0)"
  define v where "v = snd (run_frames pre v0)"
  define v' where "v' = update_position (poll_events (events q) v)"
  let ?all = "tr @ render v' @ pace_of (elapsedMS q)"
  have run: "run_frames (pre @ [q]) v0 = (?all, v')"
    by (simp add: run_frames_append tr_def v_def v'_def frame_step_def)
  have loop: "game_loop (frames w) v0 = Inr (?all, v')"
    using game_loop_quit [of v0 pre q rest] assms(3-5) run by (simp add: v0_def)
  have main: "main w =
      Inr ([SDL_Init, SDL_CreateWindowAndRenderer] @ tr @ render v' @ pace_of (elapsedMS q) @
           [SDL_DestroyRenderer, SDL_DestroyWindow, SDL_Quit], 0)"
    using assms(1,2) loop by (simp add: main_def v0_def)
  have all: "?all = fst (run_frames (pre @ [q]) v0)" by (simp only: run fst_conv)
  have n: "count_list ?all SDL_RenderPresent = length pre + 1"
    by (simp only: all run_frames_presents) simp
  have one: "count_list (render v' @ pace_of (elapsedMS q)) SDL_RenderPresent = 1"
    by (simp add: render_def)
  have clean: "SDL_DestroyRenderer \<notin> set ?all" "SDL_DestroyWindow \<notin> set ?all"
    "SDL_Quit \<notin> set ?all"
    by (simp_all only: all run_frames_no_cleanup not_False_eq_True)
  have "running v' = (running v \<and> SDL_EVENT_QUIT \<notin> set (events q))"
    by (simp add: v'_def poll_events_running)
  then have stop: "\<not> running v'" using assms(5) by simp
  have "run_frames pre (initial_locals w) = (tr, v)" by (simp add: tr_def v_def v0_def)
  with main loop n one clean stop show ?thesis unfolding v0_def v'_def by blast
qed

theorem quit_completes_frame_then_stops_witness:
  "main
     \<lparr>init_ok = True, create_ok = True, windowWidthInt = 800, windowHeightInt = 600,
      frames = [\<lparr>events = [SDL_EVENT_KEY_DOWN SDL_SCANCODE_D, SDL_EVENT_QUIT],
                 frameStart = 0, frameEnd = 0, perfFrequency = 1\<rparr>,
                \<lparr>events = [SDL_EVENT_KEY_DOWN SDL_SCANCODE_S],
                 frameStart = 0, frameEnd = 0, perfFrequency = 1\<rparr>]\<rparr>
   = Inr ([SDL_Init, SDL_CreateWindowAndRenderer,
           SDL_SetRenderDrawColor 0 0 0 255, SDL_RenderClear,
           SDL_SetRenderDrawColor 255 0 0 255,
           SDL_RenderFillRect (Fin 105) (Fin 100) (Fin 50) (Fin 50), SDL_RenderPresent,
           SDL_Delay 16,
           SDL_DestroyRenderer, SDL_DestroyWindow, SDL_Quit], 0)"
proof -
  let ?q = "\<lparr>events = [SDL_EVENT_KEY_DOWN SDL_SCANCODE_D, SDL_EVENT_QUIT],
      frameStart = 0, frameEnd = 0, perfFrequency = 1\<rparr>"
  let ?g = "\<lparr>events = [SDL_EVENT_KEY_DOWN SDL_SCANCODE_S],
      frameStart = 0, frameEnd = 0, perfFrequency = 1\<rparr>"
  let ?w = "\<lparr>init_ok = True, create_ok = True, windowWidthInt = 800, windowHeightInt = 600,
      frames = [?q, ?g]\<rparr>"
  have step: "update_position (poll_events (events ?q) (initial_locals ?w))
      = \<lparr>squareX = Fin 105, squareY = Fin 100, squareSize = Fin 50, moveSpeed = Fin 5,
         windowWidth = Fin 800, windowHeight = Fin 600, movingUp = False, movingDown = False,
         movingLeft = False, movingRight = True, running = False\<rparr>"
    using frame_step_right_quit [of 0 0 1]
    by (simp only: frame_step_def initial_locals_800_600)
  have "init_ok ?w" and "create_ok ?w" and "frames ?w = [] @ ?q # [?g]"
    and "\<forall>f\<in>set []. SDL_EVENT_QUIT \<notin> set (events f)"
    and "SDL_EVENT_QUIT \<in> set (events ?q)"
    by simp_all
  from quit_completes_frame_then_stops [OF this] obtain tr v v'
    where r: "run_frames [] (initial_locals ?w) = (tr, v)"
      and v': "v' = update_position (poll_events (events ?q) v)"
      and m: "main ?w =
        Inr ([SDL_Init, SDL_CreateWindowAndRenderer] @ tr @ render v' @ pace_of (elapsedMS ?q) @
             [SDL_DestroyRenderer, SDL_DestroyWindow, SDL_Quit], 0)"
    by blast
  from r have tr: "tr = []" and v: "v = initial_locals ?w" by simp_all
  have v'': "v' = \<lparr>squareX = Fin 105, squareY = Fin 100, squareSize = Fin 50, moveSpeed = Fin 5,
         windowWidth = Fin 800, windowHeight = Fin 600, movingUp = False, movingDown = False,
         movingLeft = False, movingRight = True, running = False\<rparr>"
    by (simp only: v' v step)
  show ?thesis
    by (simp only: m tr v'' elapsedMS_0_0_1 pace_of_0) (simp add: render_def)
qed

text \<open>
  C3.  The target is \<open>1000 / 60\<close> ms rounded to single precision.  For every measured time
  (every pair of counter readings and every counter frequency): when it is below the target,
  the pacer asks \<^verbatim>\<open>SDL_Delay\<close> for \<open>target - elapsed\<close> in the granularity of that call,
  whole milliseconds: the single-precision difference \<open>d\<close>, which is within \<open>2 ^ - 20\<close> ms
  of the exact difference, cut to \<open>\<lfloor>d\<rfloor>\<close>; when it is at or above the target (or is not a
  number), the pacer asks for no delay.  The calls of the pacer are a function of the measured
  time of the frame alone: the delays of a whole run of the loop are those of its frames, one
  by one, with nothing carried over.
\<close>

theorem frame_pacer_decision:
  "(f32_lt (elapsedMS f) targetFrameTimeMS \<longrightarrow>
      (\<exists>e d. elapsedMS f = Fin e \<and> f32_sub targetFrameTimeMS (elapsedMS f) = Fin d
         \<and> \<bar>d - (8738133 / 2 ^ 19 - e)\<bar> \<le> 1 / 2 ^ 20 \<and> 0 \<le> d
         \<and> of_int \<lfloor>d\<rfloor> \<le> d \<and> d < of_int \<lfloor>d\<rfloor> + 1
         \<and> frame_pacer (elapsedMS f) = Inr [SDL_Delay (word_of_int \<lfloor>d\<rfloor>)]))
   \<and> (\<not> f32_lt (elapsedMS f) targetFrameTimeMS \<longrightarrow> frame_pacer (elapsedMS f) = Inr [])
   \<and> targetFrameTimeMS = Fin (8738133 / 2 ^ 19)
   \<and> \<bar>8738133 / 2 ^ 19 - 1000 / 60\<bar> \<le> (1 / 2 ^ 20 :: real)
   \<and> frame_pacer (elapsedMS f) = Inr (pace_of (elapsedMS f))
   \<and> (game_loop fs v = Inr (tr, v') \<longrightarrow>
        (\<exists>n\<le>length fs.
           filter is_delay tr = concat (map (\<lambda>g. pace_of (elapsedMS g)) (take n fs))))"
proof -
  have fl: "of_int \<lfloor>d\<rfloor> \<le> d \<and> d < of_int \<lfloor>d\<rfloor> + 1" for d :: real
    by linarith
  have early: "\<exists>e d. elapsedMS f = Fin e \<and> f32_sub targetFrameTimeMS (elapsedMS f) = Fin d
         \<and> \<bar>d - (8738133 / 2 ^ 19 - e)\<bar> \<le> 1 / 2 ^ 20 \<and> 0 \<le> d
         \<and> of_int \<lfloor>d\<rfloor> \<le> d \<and> d < of_int \<lfloor>d\<rfloor> + 1
         \<and> frame_pacer (elapsedMS f) = Inr [SDL_Delay (word_of_int \<lfloor>d\<rfloor>)]"
    if "f32_lt (elapsedMS f) targetFrameTimeMS"
  proof (rule frame_pacer_early [OF elapsedMS_nonneg that])
    fix e d :: real
    assume "elapsedMS f = Fin e" and "f32_sub targetFrameTimeMS (elapsedMS f) = Fin d"
      and "\<bar>d - (8738133 / 2 ^ 19 - e)\<bar> \<le> 1 / 2 ^ 20" and "0 \<le> d"
      and "frame_pacer (elapsedMS f) = Inr [SDL_Delay (word_of_int \<lfloor>d\<rfloor>)]"
    with fl [of d] show ?thesis by blast
  qed
  have loop: "\<exists>n\<le>length fs.
      filter is_delay tr = concat (map (\<lambda>f. pace_of (elapsedMS f)) (take n fs))"
    if "game_loop fs v = Inr (tr, v')"
  proof -
    from game_loop_prefix [OF that] obtain n where n: "n \<le> length fs"
      and r: "(tr, v') = run_frames (take n fs) v" by blast
    from r have "tr = fst (run_frames (take n fs) v)" by (metis fst_conv)
    then have "filter is_delay tr = concat (map (\<lambda>f. pace_of (elapsedMS f)) (take n fs))"
      by (simp only: run_frames_delays)
    with n show ?thesis by blast
  qed
  have close: "\<bar>8738133 / 2 ^ 19 - 1000 / 60\<bar> \<le> (1 / 2 ^ 20 :: real)" by simp
  have late: "frame_pacer (elapsedMS f) = Inr []" if "\<not> f32_lt (elapsedMS f) targetFrameTimeMS"
    using that by (rule frame_pacer_late)
  have total: "frame_pacer (elapsedMS f) = Inr (pace_of (elapsedMS f))"
    using elapsedMS_nonneg by (rule frame_pacer_pace_of)
  from early late targetFrameTimeMS_value close total loop show ?thesis by blast
qed

theorem frame_pacer_decision_witness:
  "f32_lt (elapsedMS \<lparr>events = [], frameStart = 0, frameEnd = 5, perfFrequency = 1000\<rparr>)
     targetFrameTimeMS
   \<and> frame_pacer (elapsedMS \<lparr>events = [], frameStart = 0, frameEnd = 5, perfFrequency = 1000\<rparr>)
     = Inr [SDL_Delay 11]
   \<and> \<not> f32_lt (elapsedMS \<lparr>events = [], frameStart = 0, frameEnd = 20, perfFrequency = 1000\<rparr>)
     targetFrameTimeMS
   \<and> frame_pacer (elapsedMS \<lparr>events = [], frameStart = 0, frameEnd = 20, perfFrequency = 1000\<rparr>)
     = Inr []"
proof -
  let ?f = "\<lparr>events = [], frameStart = 0, frameEnd = 5, perfFrequency = 1000\<rparr>"
  let ?g = "\<lparr>events = [], frameStart = 0, frameEnd = 20, perfFrequency = 1000\<rparr>"
  have lt: "f32_lt (elapsedMS ?f) targetFrameTimeMS"
    by (simp add: elapsedMS_0_5_1000 targetFrameTimeMS_value)
  with frame_pacer_decision [of ?f] obtain d
    where "f32_sub targetFrameTimeMS (elapsedMS ?f) = Fin d"
      and p: "frame_pacer (elapsedMS ?f) = Inr [SDL_Delay (word_of_int \<lfloor>d\<rfloor>)]"
    by blast
  then have "Fin d = Fin (6116693 / 2 ^ 19)" by (simp only: elapsedMS_0_5_1000 target_minus_5)
  then have "\<lfloor>d\<rfloor> = \<lfloor>6116693 / 2 ^ 19 :: real\<rfloor>" by (simp only: f32.inject)
  also have "\<dots> = 11" by simp
  finally have "(word_of_int \<lfloor>d\<rfloor> :: 32 word) = 11" by simp
  with p have early: "frame_pacer (elapsedMS ?f) = Inr [SDL_Delay 11]" by simp
  have ge: "\<not> f32_lt (elapsedMS ?g) targetFrameTimeMS"
    by (simp add: elapsedMS_0_20_1000 targetFrameTimeMS_value)
  with frame_pacer_decision [of ?g] have late: "frame_pacer (elapsedMS ?g) = Inr []" by blast
  from lt early ge late show ?thesis by blast
qed

text \<open>
  C4, as stated: with two opposing flags set the movement step leaves that coordinate at
  its starting value, for every starting position and every move speed.  It fails in
  single precision, where the two moves are two rounded operations: from \<open>y = 0.1f\<close>
  (the binary32 value \<open>13421773 / 2 ^ 27\<close>) at the move speed 5 of the program, up and
  down together give \<open>209715 / 2 ^ 21\<close>, a different value.
\<close>

theorem opposing_flags_counterexample:
  "squareY (apply_movement
     \<lparr>squareX = Fin 100, squareY = Fin (13421773 / 2 ^ 27), squareSize = Fin 50,
      moveSpeed = Fin 5, windowWidth = Fin 800, windowHeight = Fin 600, movingUp = True,
      movingDown = True, movingLeft = False, movingRight = False, running = True\<rparr>)
     = Fin (209715 / 2 ^ 21)
   \<and> (209715 / 2 ^ 21 :: real) \<noteq> 13421773 / 2 ^ 27
   \<and> is_f32 (13421773 / 2 ^ 27)"
proof -
  have a: "f32_round (13421773 / 2 ^ 27 - 5) = Fin (- 10276045 / 2 ^ 21)"
    by (simp add: f32_eval)
  have b: "f32_round (- 10276045 / 2 ^ 21 + 5) = Fin (209715 / 2 ^ 21)"
    by (simp add: f32_eval)
  have c: "is_f32 (13421773 / 2 ^ 27)" by (simp add: f32_eval)
  show ?thesis
    using a b c by (simp add: apply_movement_Y move_axis_def)
qed

text \<open>
  C4, amended.  With two opposing flags set, the movement step computes
  \<open>(p - speed) + speed\<close> on that coordinate, each operation rounded to single precision.
  The result is the starting value \<open>p\<close> whenever \<open>p - speed\<close> is itself a binary32 value,
  in particular whenever \<open>p\<close> and \<open>speed\<close> are whole numbers with \<open>p\<close> and \<open>p - speed\<close> of
  magnitude at most \<open>2 ^ 24\<close>; otherwise it can differ from \<open>p\<close> by a rounding error.
\<close>

theorem opposing_flags_cancel_when_exact:
  assumes "squareX v = Fin x" and "squareY v = Fin y" and "moveSpeed v = Fin s"
  shows "(movingUp v \<and> movingDown v \<longrightarrow>
            squareY (apply_movement v) = f32_add (f32_sub (Fin y) (Fin s)) (Fin s))
    \<and> (movingLeft v \<and> movingRight v \<longrightarrow>
            squareX (apply_movement v) = f32_add (f32_sub (Fin x) (Fin s)) (Fin s))
    \<and> (movingUp v \<and> movingDown v \<and> is_f32 y \<and> is_f32 (y - s) \<longrightarrow>
            squareY (apply_movement v) = Fin y)
    \<and> (movingLeft v \<and> movingRight v \<and> is_f32 x \<and> is_f32 (x - s) \<longrightarrow>
            squareX (apply_movement v) = Fin x)
    \<and> (movingUp v \<and> movingDown v \<and> y = of_int i \<and> s = of_int j \<and> \<bar>i\<bar> \<le> 2 ^ 24
          \<and> \<bar>i - j\<bar> \<le> 2 ^ 24 \<longrightarrow> squareY (apply_movement v) = Fin y)
    \<and> (movingLeft v \<and> movingRight v \<and> x = of_int i \<and> s = of_int j \<and> \<bar>i\<bar> \<le> 2 ^ 24
          \<and> \<bar>i - j\<bar> \<le> 2 ^ 24 \<longrightarrow> squareX (apply_movement v) = Fin x)"
proof -
  have int: "is_f32 p \<and> is_f32 (p - s)"
    if "p = of_int i" "s = of_int j" "\<bar>i\<bar> \<le> 2 ^ 24" "\<bar>i - j\<bar> \<le> 2 ^ 24" for p
  proof -
    have "is_f32 (of_int i)" using that(3) by (rule is_f32_of_int)
    moreover have "is_f32 (of_int (i - j))" using that(4) by (rule is_f32_of_int)
    ultimately show ?thesis using that(1,2) by simp
  qed
  have Y: "squareY (apply_movement v) = Fin y"
    if "movingUp v" "movingDown v" "is_f32 y" "is_f32 (y - s)"
    using that assms move_axis_cancel [of y s] by (simp add: apply_movement_Y)
  have X: "squareX (apply_movement v) = Fin x"
    if "movingLeft v" "movingRight v" "is_f32 x" "is_f32 (x - s)"
    using that assms move_axis_cancel [of x s] by (simp add: apply_movement_X)
  have "movingUp v \<and> movingDown v \<longrightarrow>
      squareY (apply_movement v) = f32_add (f32_sub (Fin y) (Fin s)) (Fin s)"
    using assms by (simp add: apply_movement_Y move_axis_def)
  moreover have "movingLeft v \<and> movingRight v \<longrightarrow>
      squareX (apply_movement v) = f32_add (f32_sub (Fin x) (Fin s)) (Fin s)"
    using assms by (simp add: apply_movement_X move_axis_def)
  ultimately show ?thesis using X Y int [of y] int [of x] by blast
qed

theorem opposing_flags_cancel_when_exact_witness:
  "is_f32 100 \<and> is_f32 (100 - 5)
   \<and> squareY (apply_movement
       \<lparr>squareX = Fin 100, squareY = Fin 100, squareSize = Fin 50, moveSpeed = Fin 5,
        windowWidth = Fin 800, windowHeight = Fin 600, movingUp = True, movingDown = True,
        movingLeft = True, movingRight = True, running = True\<rparr>) = Fin 100
   \<and> squareX (apply_movement
       \<lparr>squareX = Fin 100, squareY = Fin 100, squareSize = Fin 50, moveSpeed = Fin 5,
        windowWidth = Fin 800, windowHeight = Fin 600, movingUp = True, movingDown = True,
        movingLeft = True, movingRight = True, running = True\<rparr>) = Fin 100"
  using opposing_flags_cancel_when_exact [of
     "\<lparr>squareX = Fin 100, squareY = Fin 100, squareSize = Fin 50, moveSpeed = Fin 5,
      windowWidth = Fin 800, windowHeight = Fin 600, movingUp = True, movingDown = True,
      movingLeft = True, movingRight = True, running = True\<rparr>" 100 100 5 100 5]
  by simp

text \<open>
  C5.  With size 50, window width 800, \<open>x = 760\<close>, the right flag set and move speed 20, one
  update yields \<open>x = 750\<close>, which is \<open>800 - 50\<close>, not 780: the move comes first (to 780 when
  the left flag is clear, back to 760 when it is set), and the clamp then puts the square
  on the boundary.
\<close>

theorem clamp_boundary_760:
  assumes "squareX v = Fin 760" and "moveSpeed v = Fin 20" and "squareSize v = Fin 50"
    and "windowWidth v = Fin 800" and "movingRight v"
  shows "squareX (update_position v) = Fin 750
    \<and> squareX (update_position v) = f32_sub (Fin 800) (Fin 50)
    \<and> squareX (update_position v) \<noteq> Fin 780
    \<and> squareX (apply_movement v) = (if movingLeft v then Fin 760 else Fin 780)"
proof -
  have moved: "squareX (apply_movement v) = (if movingLeft v then Fin 760 else Fin 780)"
    using assms(1,2,5) by (simp add: apply_movement_X move_axis_def)
  have over: "f32_gt (f32_add (Fin p) (Fin 50)) (Fin 800)" if "p = 760 \<or> p = 780" for p
    using that by (auto simp add: f32_gt_def)
  have "clamp_axis (Fin p) (Fin 50) (Fin 800) = f32_sub (Fin 800) (Fin 50)"
    if "p = 760 \<or> p = 780" for p
    using that over [OF that] by (auto simp add: clamp_axis_def)
  then have "clamp_axis (squareX (apply_movement v)) (Fin 50) (Fin 800) = f32_sub (Fin 800) (Fin 50)"
    by (simp add: moved)
  then have clamped: "squareX (update_position v) = f32_sub (Fin 800) (Fin 50)"
    using assms(3,4) by (simp add: update_position_def clamp_to_window_X)
  moreover have "f32_sub (Fin 800) (Fin 50) = Fin 750" by simp
  ultimately show ?thesis using moved by simp
qed

theorem clamp_boundary_760_witness:
  "squareX (update_position
     \<lparr>squareX = Fin 760, squareY = Fin 100, squareSize = Fin 50, moveSpeed = Fin 20,
      windowWidth = Fin 800, windowHeight = Fin 600, movingUp = False, movingDown = False,
      movingLeft = False, movingRight = True, running = True\<rparr>) = Fin 750"
  using clamp_boundary_760 [of
     "\<lparr>squareX = Fin 760, squareY = Fin 100, squareSize = Fin 50, moveSpeed = Fin 20,
      windowWidth = Fin 800, windowHeight = Fin 600, movingUp = False, movingDown = False,
      movingLeft = False, movingRight = True, running = True\<rparr>"]
  by simp

text \<open>
  C6.  With all four flags clear, one update of a position within the bounds
  \<open>0 \<le> x \<le> windowWidth - size\<close> and \<open>0 \<le> y \<le> windowHeight - size\<close> returns it unchanged.
\<close>

theorem no_input_fixpoint:
  assumes "squareX v = Fin x" and "squareY v = Fin y" and "squareSize v = Fin s"
    and "windowWidth v = Fin W" and "windowHeight v = Fin H" and "is_f32 W" and "is_f32 H"
    and "0 \<le> x" and "x \<le> W - s" and "0 \<le> y" and "y \<le> H - s"
    and "\<not> movingUp v" and "\<not> movingDown v" and "\<not> movingLeft v" and "\<not> movingRight v"
  shows "update_position v = v"
proof -
  have m: "apply_movement v = v" using assms(12-15) by (simp add: apply_movement_def)
  have cx: "\<not> f32_gt (f32_add (squareX v) (squareSize v)) (windowWidth v)"
    using assms(1,3,4) no_upper_clamp [OF assms(6,9)] by simp
  have cy: "\<not> f32_gt (f32_add (squareY v) (squareSize v)) (windowHeight v)"
    using assms(2,3,5) no_upper_clamp [OF assms(7,11)] by simp
  have lx: "\<not> f32_lt (squareX v) (Fin 0)" using assms(1,8) by simp
  have ly: "\<not> f32_lt (squareY v) (Fin 0)" using assms(2,10) by simp
  have "clamp_to_window v = v" using cx cy lx ly by (simp add: clamp_to_window_def)
  with m show ?thesis by (simp add: update_position_def)
qed

theorem no_input_fixpoint_witness:
  "is_f32 800 \<and> is_f32 600 \<and> (0::real) \<le> 750 \<and> (750::real) \<le> 800 - 50 \<and> (0::real) \<le> 0
   \<and> (0::real) \<le> 600 - 50
   \<and> update_position
       \<lparr>squareX = Fin 750, squareY = Fin 0, squareSize = Fin 50, moveSpeed = Fin 5,
        windowWidth = Fin 800, windowHeight = Fin 600, movingUp = False, movingDown = False,
        movingLeft = False, movingRight = False, running = True\<rparr>
     = \<lparr>squareX = Fin 750, squareY = Fin 0, squareSize = Fin 50, moveSpeed = Fin 5,
        windowWidth = Fin 800, windowHeight = Fin 600, movingUp = False, movingDown = False,
        movingLeft = False, movingRight = False, running = True\<rparr>"
  using no_input_fixpoint [of
     "\<lparr>squareX = Fin 750, squareY = Fin 0, squareSize = Fin 50, moveSpeed = Fin 5,
      windowWidth = Fin 800, windowHeight = Fin 600, movingUp = False, movingDown = False,
      movingLeft = False, movingRight = False, running = True\<rparr>" 750 0 50 800 600]
  by simp

text \<open>
  C7.  For every sequence of drained events, handled in the order of arrival: a press of
  W, S, A or D sets the flag of that key and a release clears it, so each flag after the
  drain is what the last press or release of its key made it; a quit event clears
  \<open>running\<close>; every other event, and every other key, changes nothing; the position and
  the other variables are as before the drain.
\<close>

theorem input_mapper_spec:
  "movingUp (poll_events es v) = key_flag SDL_SCANCODE_W es (movingUp v)
   \<and> movingDown (poll_events es v) = key_flag SDL_SCANCODE_S es (movingDown v)
   \<and> movingLeft (poll_events es v) = key_flag SDL_SCANCODE_A es (movingLeft v)
   \<and> movingRight (poll_events es v) = key_flag SDL_SCANCODE_D es (movingRight v)
   \<and> running (poll_events es v) = (running v \<and> SDL_EVENT_QUIT \<notin> set es)
   \<and> squareX (poll_events es v) = squareX v \<and> squareY (poll_events es v) = squareY v
   \<and> squareSize (poll_events es v) = squareSize v \<and> moveSpeed (poll_events es v) = moveSpeed v
   \<and> windowWidth (poll_events es v) = windowWidth v
   \<and> windowHeight (poll_events es v) = windowHeight v
   \<and> poll_events (es @ [e]) v = handle_event e (poll_events es v)
   \<and> handle_event (SDL_EVENT_KEY_DOWN SDL_SCANCODE_W) v = v\<lparr>movingUp := True\<rparr>
   \<and> handle_event (SDL_EVENT_KEY_DOWN SDL_SCANCODE_S) v = v\<lparr>movingDown := True\<rparr>
   \<and> handle_event (SDL_EVENT_KEY_DOWN SDL_SCANCODE_A) v = v\<lparr>movingLeft := True\<rparr>
   \<and> handle_event (SDL_EVENT_KEY_DOWN SDL_SCANCODE_D) v = v\<lparr>movingRight := True\<rparr>
   \<and> handle_event (SDL_EVENT_KEY_UP SDL_SCANCODE_W) v = v\<lparr>movingUp := False\<rparr>
   \<and> handle_event (SDL_EVENT_KEY_UP SDL_SCANCODE_S) v = v\<lparr>movingDown := False\<rparr>
   \<and> handle_event (SDL_EVENT_KEY_UP SDL_SCANCODE_A) v = v\<lparr>movingLeft := False\<rparr>
   \<and> handle_event (SDL_EVENT_KEY_UP SDL_SCANCODE_D) v = v\<lparr>movingRight := False\<rparr>
   \<and> handle_event SDL_EVENT_QUIT v = v\<lparr>running := False\<rparr>
   \<and> handle_event (SDL_EVENT_other n) v = v
   \<and> handle_event (SDL_EVENT_KEY_DOWN (SDL_SCANCODE_other n)) v = v
   \<and> handle_event (SDL_EVENT_KEY_UP (SDL_SCANCODE_other n)) v = v"
proof -
  have flags: "movingUp (poll_events es v) = key_flag SDL_SCANCODE_W es (movingUp v)"
    "movingDown (poll_events es v) = key_flag SDL_SCANCODE_S es (movingDown v)"
    "movingLeft (poll_events es v) = key_flag SDL_SCANCODE_A es (movingLeft v)"
    "movingRight (poll_events es v) = key_flag SDL_SCANCODE_D es (movingRight v)"
    by (rule poll_events_flags)+
  have stop: "running (poll_events es v) = (running v \<and> SDL_EVENT_QUIT \<notin> set es)"
    by (rule poll_events_running)
  have rest: "squareX (poll_events es v) = squareX v" "squareY (poll_events es v) = squareY v"
    "squareSize (poll_events es v) = squareSize v" "moveSpeed (poll_events es v) = moveSpeed v"
    "windowWidth (poll_events es v) = windowWidth v"
    "windowHeight (poll_events es v) = windowHeight v"
    by (rule poll_events_fields)+
  have order: "poll_events (es @ [e]) v = handle_event e (poll_events es v)"
    by (simp add: poll_events_append)
  have keys: "handle_event (SDL_EVENT_KEY_DOWN SDL_SCANCODE_W) v = v\<lparr>movingUp := True\<rparr>"
    "handle_event (SDL_EVENT_KEY_DOWN SDL_SCANCODE_S) v = v\<lparr>movingDown := True\<rparr>"
    "handle_event (SDL_EVENT_KEY_DOWN SDL_SCANCODE_A) v = v\<lparr>movingLeft := True\<rparr>"
    "handle_event (SDL_EVENT_KEY_DOWN SDL_SCANCODE_D) v = v\<lparr>movingRight := True\<rparr>"
    "handle_event (SDL_EVENT_KEY_UP SDL_SCANCODE_W) v = v\<lparr>movingUp := False\<rparr>"
    "handle_event (SDL_EVENT_KEY_UP SDL_SCANCODE_S) v = v\<lparr>movingDown := False\<rparr>"
    "handle_event (SDL_EVENT_KEY_UP SDL_SCANCODE_A) v = v\<lparr>movingLeft := False\<rparr>"
    "handle_event (SDL_EVENT_KEY_UP SDL_SCANCODE_D) v = v\<lparr>movingRight := False\<rparr>"
    "handle_event SDL_EVENT_QUIT v = v\<lparr>running := False\<rparr>"
    by simp_all
  have others: "handle_event (SDL_EVENT_other n) v = v"
    "handle_event (SDL_EVENT_KEY_DOWN (SDL_SCANCODE_other n)) v = v"
    "handle_event (SDL_EVENT_KEY_UP (SDL_SCANCODE_other n)) v = v"
    by simp_all
  from flags stop rest order keys others show ?thesis by (intro conjI)
qed

theorem input_mapper_spec_witness:
  "poll_events
     [SDL_EVENT_KEY_DOWN SDL_SCANCODE_W, SDL_EVENT_other 7, SDL_EVENT_KEY_DOWN SDL_SCANCODE_D,
      SDL_EVENT_KEY_UP SDL_SCANCODE_W, SDL_EVENT_QUIT, SDL_EVENT_KEY_DOWN SDL_SCANCODE_A]
     \<lparr>squareX = Fin 100, squareY = Fin 100, squareSize = Fin 50, moveSpeed = Fin 5,
      windowWidth = Fin 800, windowHeight = Fin 600, movingUp = False, movingDown = True,
      movingLeft = False, movingRight = False, running = True\<rparr>
   = \<lparr>squareX = Fin 100, squareY = Fin 100, squareSize = Fin 50, moveSpeed = Fin 5,
      windowWidth = Fin 800, windowHeight = Fin 600, movingUp = False, movingDown = True,
      movingLeft = True, movingRight = True, running = False\<rparr>"
proof -
  let ?es = "[SDL_EVENT_KEY_DOWN SDL_SCANCODE_W, SDL_EVENT_other 7,
      SDL_EVENT_KEY_DOWN SDL_SCANCODE_D, SDL_EVENT_KEY_UP SDL_SCANCODE_W, SDL_EVENT_QUIT,
      SDL_EVENT_KEY_DOWN SDL_SCANCODE_A]"
  let ?v = "\<lparr>squareX = Fin 100, squareY = Fin 100, squareSize = Fin 50, moveSpeed = Fin 5,
      windowWidth = Fin 800, windowHeight = Fin 600, movingUp = False, movingDown = True,
      movingLeft = False, movingRight = False, running = True\<rparr>"
  have "poll_events ?es ?v =
      \<lparr>squareX = squareX (poll_events ?es ?v), squareY = squareY (poll_events ?es ?v),
       squareSize = squareSize (poll_events ?es ?v), moveSpeed = moveSpeed (poll_events ?es ?v),
       windowWidth = windowWidth (poll_events ?es ?v),
       windowHeight = windowHeight (poll_events ?es ?v),
       movingUp = movingUp (poll_events ?es ?v), movingDown = movingDown (poll_events ?es ?v),
       movingLeft = movingLeft (poll_events ?es ?v),
       movingRight = movingRight (poll_events ?es ?v), running = running (poll_events ?es ?v)\<rparr>"
    by simp
  also have "\<dots> = \<lparr>squareX = Fin 100, squareY = Fin 100, squareSize = Fin 50, moveSpeed = Fin 5,
      windowWidth = Fin 800, windowHeight = Fin 600, movingUp = False, movingDown = True,
      movingLeft = True, movingRight = True, running = False\<rparr>"
    using input_mapper_spec [of ?es ?v]
    by (simp only: key_flag.simps locals.simps) simp
  finally show ?thesis .
qed

text \<open>
  C8.  The exit code is 0 exactly when both initialisations succeed and a quit event is
  observed; it is 1 exactly when \<^verbatim>\<open>SDL_Init\<close> fails or the window and renderer cannot be
  created, and then a diagnostic is logged and, in the second case, \<^verbatim>\<open>SDL_Quit\<close> releases
  what \<^verbatim>\<open>SDL_Init\<close> acquired.  No other exit code occurs; without a quit event the program
  does not return.
\<close>

theorem exit_codes:
  "(\<not> init_ok w \<longrightarrow>
      main w = Inr ([SDL_Init, SDL_Log ''Failed to initialize video! %s''], 1))
   \<and> (init_ok w \<and> \<not> create_ok w \<longrightarrow>
      main w = Inr ([SDL_Init, SDL_CreateWindowAndRenderer,
                         SDL_Log ''Failed to create window and renderer: %s'', SDL_Quit], 1))
   \<and> ((\<exists>tr. main w = Inr (tr, 0)) \<longleftrightarrow>
        init_ok w \<and> create_ok w \<and> (\<exists>f\<in>set (frames w). SDL_EVENT_QUIT \<in> set (events f)))
   \<and> ((\<exists>tr. main w = Inr (tr, 1)) \<longleftrightarrow> \<not> init_ok w \<or> \<not> create_ok w)
   \<and> (\<forall>tr c. main w = Inr (tr, c) \<longrightarrow> c = 0 \<or> c = 1)
   \<and> (init_ok w \<and> create_ok w \<and> \<not> (\<exists>f\<in>set (frames w). SDL_EVENT_QUIT \<in> set (events f)) \<longrightarrow>
        main w = Inl Frames_exhausted)"
proof -
  have fail1: "main w = Inr ([SDL_Init, SDL_Log ''Failed to initialize video! %s''], 1)"
    if "\<not> init_ok w"
    using that by (simp add: main_def)
  have fail2: "main w = Inr ([SDL_Init, SDL_CreateWindowAndRenderer,
      SDL_Log ''Failed to create window and renderer: %s'', SDL_Quit], 1)"
    if "init_ok w" "\<not> create_ok w"
    using that by (simp add: main_def)
  have quit: "\<exists>tr. main w = Inr (tr, 0)"
    if "init_ok w" "create_ok w" "\<exists>f\<in>set (frames w). SDL_EVENT_QUIT \<in> set (events f)"
  proof -
    from that(3) obtain pre q rest where "frames w = pre @ q # rest"
      and "\<forall>f\<in>set pre. SDL_EVENT_QUIT \<notin> set (events f)" and "SDL_EVENT_QUIT \<in> set (events q)"
      by (rule quit_frame_split)
    then have "game_loop (frames w) (initial_locals w)
        = Inr (run_frames (pre @ [q]) (initial_locals w))"
      by (simp add: game_loop_quit)
    then show ?thesis using that(1,2) by (simp add: main_def split: prod.splits)
  qed
  have never: "main w = Inl Frames_exhausted"
    if "init_ok w" "create_ok w" "\<not> (\<exists>f\<in>set (frames w). SDL_EVENT_QUIT \<in> set (events f))"
  proof -
    have "game_loop (frames w) (initial_locals w) = Inl Frames_exhausted"
      using that(3) by (intro game_loop_exhausted) simp_all
    then show ?thesis using that(1,2) by (simp add: main_def)
  qed
  show ?thesis
  proof (cases "init_ok w")
    case False
    with fail1 show ?thesis by auto
  next
    case i: True
    show ?thesis
    proof (cases "create_ok w")
      case False
      with i fail2 show ?thesis by auto
    next
      case c: True
      show ?thesis
      proof (cases "\<exists>f\<in>set (frames w). SDL_EVENT_QUIT \<in> set (events f)")
        case True
        from quit [OF i c True] obtain tr where "main w = Inr (tr, 0)" ..
        with i c True show ?thesis by auto
      next
        case False
        from never [OF i c False] i c False show ?thesis by auto
      qed
    qed
  qed
qed

theorem exit_codes_witness:
  "main \<lparr>init_ok = False, create_ok = False, windowWidthInt = 0, windowHeightInt = 0,
        frames = []\<rparr>
     = Inr ([SDL_Init, SDL_Log ''Failed to initialize video! %s''], 1)
   \<and> main \<lparr>init_ok = True, create_ok = False, windowWidthInt = 0, windowHeightInt = 0,
        frames = []\<rparr>
     = Inr ([SDL_Init, SDL_CreateWindowAndRenderer,
             SDL_Log ''Failed to create window and renderer: %s'', SDL_Quit], 1)
   \<and> (\<exists>tr. main \<lparr>init_ok = True, create_ok = True, windowWidthInt = 800,
        windowHeightInt = 600,
        frames = [\<lparr>events = [SDL_EVENT_QUIT], frameStart = 0, frameEnd = 0,
                   perfFrequency = 1\<rparr>]\<rparr> = Inr (tr, 0))
   \<and> main \<lparr>init_ok = True, create_ok = True, windowWidthInt = 800, windowHeightInt = 600,
        frames = [\<lparr>events = [SDL_EVENT_KEY_DOWN SDL_SCANCODE_W], frameStart = 0, frameEnd = 0,
                   perfFrequency = 1\<rparr>]\<rparr> = Inl Frames_exhausted"
  using
    exit_codes [of "\<lparr>init_ok = False, create_ok = False, windowWidthInt = 0,
        windowHeightInt = 0, frames = []\<rparr>"]
    exit_codes [of "\<lparr>init_ok = True, create_ok = False, windowWidthInt = 0,
        windowHeightInt = 0, frames = []\<rparr>"]
    exit_codes [of "\<lparr>init_ok = True, create_ok = True, windowWidthInt = 800,
        windowHeightInt = 600,
        frames = [\<lparr>events = [SDL_EVENT_QUIT], frameStart = 0, frameEnd = 0,
                   perfFrequency = 1\<rparr>]\<rparr>"]
    exit_codes [of "\<lparr>init_ok = True, create_ok = True, windowWidthInt = 800,
        windowHeightInt = 600,
        frames = [\<lparr>events = [SDL_EVENT_KEY_DOWN SDL_SCANCODE_W], frameStart = 0, frameEnd = 0,
                   perfFrequency = 1\<rparr>]\<rparr>"]
  by simp

text \<open>
  C9, as stated: when the size exceeds the window width, the update of every input position
  ends with \<open>x = windowWidth - size\<close>, a negative value, and the upper clamp holds after the
  update.  The lower clamp does run first and the result is negative, but the rest fails in
  single precision.  With a width of 800 and a size of \<open>2 ^ 34\<close> the upper clamp assigns the
  rounded difference \<open>- (2 ^ 34 - 1024)\<close>, which is above \<open>800 - 2 ^ 34\<close>, and the test
  \<^verbatim>\<open>squareX + squareSize > windowWidth\<close> is still true afterwards (the sum is 1024).  And
  not every input ends there: a NaN coordinate stays a NaN, and so does any coordinate moved
  left and right at an infinite speed.
\<close>

theorem oversize_square_counterexample:
  "squareX (update_position
     \<lparr>squareX = Fin 100, squareY = Fin 100, squareSize = Fin (2 ^ 34), moveSpeed = Fin 5,
      windowWidth = Fin 800, windowHeight = Fin 600, movingUp = False, movingDown = False,
      movingLeft = False, movingRight = False, running = True\<rparr>) = Fin (- (2 ^ 34 - 1024))
   \<and> \<not> (- (2 ^ 34 - 1024) \<le> (800::real) - 2 ^ 34)
   \<and> f32_gt (f32_add (Fin (- (2 ^ 34 - 1024))) (Fin (2 ^ 34))) (Fin 800)
   \<and> is_f32 (2 ^ 34) \<and> (800::real) < 2 ^ 34
   \<and> squareX (update_position
     \<lparr>squareX = NaN, squareY = Fin 100, squareSize = Fin 900, moveSpeed = Fin 5,
      windowWidth = Fin 800, windowHeight = Fin 600, movingUp = False, movingDown = False,
      movingLeft = False, movingRight = False, running = True\<rparr>) = NaN
   \<and> squareX (update_position
     \<lparr>squareX = Fin 100, squareY = Fin 100, squareSize = Fin 900, moveSpeed = PInf,
      windowWidth = Fin 800, windowHeight = Fin 600, movingUp = False, movingDown = False,
      movingLeft = True, movingRight = True, running = True\<rparr>) = NaN"
proof -
  have a: "f32_round (100 + 2 ^ 34) = Fin (2 ^ 34)" by (simp add: f32_eval)
  have b: "f32_round (800 - 2 ^ 34) = Fin (- (2 ^ 34 - 1024))" by (simp add: f32_eval)
  have c: "f32_round (- (2 ^ 34 - 1024) + 2 ^ 34) = Fin 1024" by simp
  have d: "is_f32 (2 ^ 34)" by (simp add: f32_eval)
  have first: "squareX (update_position
     \<lparr>squareX = Fin 100, squareY = Fin 100, squareSize = Fin (2 ^ 34), moveSpeed = Fin 5,
      windowWidth = Fin 800, windowHeight = Fin 600, movingUp = False, movingDown = False,
      movingLeft = False, movingRight = False, running = True\<rparr>) = Fin (- (2 ^ 34 - 1024))"
    using a b by (simp add: update_position_X clamp_axis_def f32_gt_def)
  have still: "f32_gt (f32_add (Fin (- (2 ^ 34 - 1024))) (Fin (2 ^ 34))) (Fin 800)"
    using c by (simp add: f32_gt_def)
  have nan: "squareX (update_position
     \<lparr>squareX = NaN, squareY = Fin 100, squareSize = Fin 900, moveSpeed = Fin 5,
      windowWidth = Fin 800, windowHeight = Fin 600, movingUp = False, movingDown = False,
      movingLeft = False, movingRight = False, running = True\<rparr>) = NaN"
    by (simp add: update_position_X clamp_axis_def f32_gt_def)
  have inf: "squareX (update_position
     \<lparr>squareX = Fin 100, squareY = Fin 100, squareSize = Fin 900, moveSpeed = PInf,
      windowWidth = Fin 800, windowHeight = Fin 600, movingUp = False, movingDown = False,
      movingLeft = True, movingRight = True, running = True\<rparr>) = NaN"
    by (simp add: update_position_X move_axis_def clamp_axis_def f32_gt_def f32_sub_def)
  have "\<not> (- (2 ^ 34 - 1024) \<le> (800::real) - 2 ^ 34)" "(800::real) < 2 ^ 34" by simp_all
  with first still d nan inf show ?thesis by (intro conjI)
qed

text \<open>
  C9, amended.  The lower clamp runs before the upper one.  When the width and the size are
  binary32 values and the size exceeds the width, the update of every \<open>x\<close> that is a number
  (not a NaN), at every finite move speed, ends with the value the upper clamp assigns, the
  single-precision difference \<open>windowWidth - size\<close>, and this value is negative: the lower
  bound \<open>0 \<le> x\<close> is lost.  When \<open>windowWidth - size\<close> is itself a binary32 value, in
  particular when width and size are whole numbers that differ by at most \<open>2 ^ 24\<close>, the
  output is \<open>windowWidth - size\<close> exactly and the upper test of the code is false after the
  update; otherwise the output can exceed \<open>windowWidth - size\<close> by a rounding error, and
  nothing is said about the upper bound.
\<close>

theorem oversize_square_rounded:
  assumes "squareX v \<noteq> NaN" and "moveSpeed v = Fin sp" and "squareSize v = Fin s"
    and "windowWidth v = Fin W" and "is_f32 W" and "is_f32 s" and "W < s"
  shows "squareX (update_position v) = f32_sub (windowWidth v) (squareSize v)
    \<and> f32_lt (squareX (update_position v)) (Fin 0)
    \<and> (is_f32 (W - s) \<longrightarrow>
          squareX (update_position v) = Fin (W - s)
          \<and> \<not> f32_gt (f32_add (squareX (update_position v)) (squareSize v)) (windowWidth v))
    \<and> (W = of_int i \<and> s = of_int j \<and> \<bar>i - j\<bar> \<le> 2 ^ 24 \<longrightarrow>
          squareX (update_position v) = Fin (W - s)
          \<and> \<not> f32_gt (f32_add (squareX (update_position v)) (squareSize v)) (windowWidth v))"
proof -
  have "clamp_axis (move_axis (movingLeft v) (movingRight v) (squareX v) (Fin sp)) (Fin s) (Fin W)
      = f32_sub (Fin W) (Fin s)"
    using assms(1,5-7) by (intro clamp_axis_oversize move_axis_not_NaN)
  then have eq: "squareX (update_position v) = f32_round (W - s)"
    using assms(2-4) by (simp add: update_position_X)
  have sub: "squareX (update_position v) = f32_sub (windowWidth v) (squareSize v)"
    using eq assms(3,4) by simp
  have neg: "f32_lt (squareX (update_position v)) (Fin 0)"
    using f32_round_negative [OF assms(5-7)] by (simp only: eq)
  have exact: "squareX (update_position v) = Fin (W - s)
      \<and> \<not> f32_gt (f32_add (squareX (update_position v)) (squareSize v)) (windowWidth v)"
    if "is_f32 (W - s)"
  proof -
    have x: "squareX (update_position v) = Fin (W - s)"
      using that by (simp only: eq is_f32_exact)
    have "f32_add (Fin (W - s)) (Fin s) = f32_round W" by simp
    also have "\<dots> = Fin W" using assms(5) by (rule is_f32_exact)
    finally have "\<not> f32_gt (f32_add (Fin (W - s)) (Fin s)) (Fin W)" by (simp add: f32_gt_def)
    with x show ?thesis by (simp only: assms(3,4)) simp
  qed
  have whole: "is_f32 (W - s)" if "W = of_int i" "s = of_int j" "\<bar>i - j\<bar> \<le> 2 ^ 24"
  proof -
    have "is_f32 (of_int (i - j))" using that(3) by (rule is_f32_of_int)
    then show ?thesis using that(1,2) by simp
  qed
  from sub neg exact whole show ?thesis by blast
qed

theorem oversize_square_rounded_witness:
  "Fin 100 \<noteq> NaN \<and> is_f32 800 \<and> is_f32 900 \<and> (800::real) < 900 \<and> is_f32 (800 - 900)
   \<and> squareX (update_position
       \<lparr>squareX = Fin 100, squareY = Fin 100, squareSize = Fin 900, moveSpeed = Fin 5,
        windowWidth = Fin 800, windowHeight = Fin 600, movingUp = False, movingDown = False,
        movingLeft = False, movingRight = True, running = True\<rparr>) = Fin (- 100)
   \<and> \<not> f32_gt (f32_add (Fin (- 100)) (Fin 900)) (Fin 800)"
proof -
  let ?v = "\<lparr>squareX = Fin 100, squareY = Fin 100, squareSize = Fin 900, moveSpeed = Fin 5,
      windowWidth = Fin 800, windowHeight = Fin 600, movingUp = False, movingDown = False,
      movingLeft = False, movingRight = True, running = True\<rparr>"
  have h: "squareX ?v \<noteq> NaN" "moveSpeed ?v = Fin 5" "squareSize ?v = Fin 900"
    "windowWidth ?v = Fin 800" "is_f32 800" "is_f32 900" "(800::real) < 900"
    by simp_all
  have r: "is_f32 (800 - 900)" using is_f32_minus [of 100] by simp
  from oversize_square_rounded [OF h] r
  have x: "squareX (update_position ?v) = Fin (800 - 900)"
    and t: "\<not> f32_gt (f32_add (squareX (update_position ?v)) (squareSize ?v)) (windowWidth ?v)"
    by blast+
  from x have x': "squareX (update_position ?v) = Fin (- 100)" by simp
  from t have "\<not> f32_gt (f32_add (Fin (- 100)) (Fin 900)) (Fin 800)" by (simp only: x') simp
  with h(5-7) r x' show ?thesis by simp
qed

text \<open>
  C10.  When the measured time is below the target, the delay asked for is the value \<open>d\<close>
  of the expression \<^verbatim>\<open>targetFrameTimeMS - elapsedMS\<close> truncated toward zero to a
  \<^verbatim>\<open>Uint32\<close> (the truncated value is in range, so the cast is defined and nothing wraps):
  it is never more than \<open>d\<close>, it is \<open>d\<close> when \<open>d\<close> is a whole number of milliseconds, and
  otherwise it is below \<open>d\<close> by less than one millisecond.  The remainder \<open>d\<close> is the
  single-precision difference, within \<open>2 ^ - 20\<close> ms of the difference of the two times as
  real numbers.
\<close>

theorem sleep_truncation:
  assumes "f32_lt (elapsedMS f) targetFrameTimeMS"
  shows "\<exists>e d ms. elapsedMS f = Fin e \<and> f32_sub targetFrameTimeMS (elapsedMS f) = Fin d
    \<and> \<bar>d - (8738133 / 2 ^ 19 - e)\<bar> \<le> 1 / 2 ^ 20
    \<and> frame_pacer (elapsedMS f) = Inr [SDL_Delay ms]
    \<and> f32_to_u32 (Fin d) = Some ms \<and> uint ms = trunc d
    \<and> of_int (uint ms) \<le> d \<and> d - of_int (uint ms) < 1
    \<and> (d \<in> \<int> \<longrightarrow> of_int (uint ms) = d) \<and> (d \<notin> \<int> \<longrightarrow> of_int (uint ms) < d)"
proof (rule frame_pacer_early [OF elapsedMS_nonneg assms])
  fix e d :: real
  assume e: "elapsedMS f = Fin e"
    and err: "\<bar>d - (8738133 / 2 ^ 19 - e)\<bar> \<le> 1 / 2 ^ 20"
    and sub: "f32_sub targetFrameTimeMS (elapsedMS f) = Fin d"
    and d: "0 \<le> d" "d \<le> 8738133 / 2 ^ 19"
    and p: "frame_pacer (elapsedMS f) = Inr [SDL_Delay (word_of_int \<lfloor>d\<rfloor>)]"
  let ?ms = "word_of_int \<lfloor>d\<rfloor> :: 32 word"
  have lt: "d < 2 ^ 32" using d(2) by simp
  have u: "uint ?ms = \<lfloor>d\<rfloor>" using d(1) lt by (rule uint_word_of_floor)
  have t: "trunc d = \<lfloor>d\<rfloor>" using d(1) by (simp add: trunc_def)
  have c: "f32_to_u32 (Fin d) = Some ?ms" using d(1) lt by (simp add: t)
  have u': "uint ?ms = trunc d" by (simp only: u t)
  have r1: "of_int (uint ?ms) \<le> d" unfolding u by linarith
  have r2: "d - of_int (uint ?ms) < 1" unfolding u by linarith
  have r3: "d \<in> \<int> \<longrightarrow> of_int (uint ?ms) = d" unfolding u by (auto elim: Ints_cases)
  have r4: "d \<notin> \<int> \<longrightarrow> of_int (uint ?ms) < d"
    unfolding u by (metis Ints_of_int of_int_floor_le order_le_less)
  from e err sub p c u' r1 r2 r3 r4 show ?thesis by blast
qed

theorem sleep_truncation_witness:
  "f32_lt (elapsedMS \<lparr>events = [], frameStart = 0, frameEnd = 5, perfFrequency = 1000\<rparr>)
     targetFrameTimeMS
   \<and> f32_sub targetFrameTimeMS
       (elapsedMS \<lparr>events = [], frameStart = 0, frameEnd = 5, perfFrequency = 1000\<rparr>)
     = Fin (6116693 / 2 ^ 19)
   \<and> (\<exists>ms. frame_pacer
         (elapsedMS \<lparr>events = [], frameStart = 0, frameEnd = 5, perfFrequency = 1000\<rparr>)
         = Inr [SDL_Delay ms]
       \<and> uint ms = 11)"
proof -
  let ?f = "\<lparr>events = [], frameStart = 0, frameEnd = 5, perfFrequency = 1000\<rparr>"
  have lt: "f32_lt (elapsedMS ?f) targetFrameTimeMS"
    by (simp add: elapsedMS_0_5_1000 targetFrameTimeMS_value)
  have s0: "f32_sub targetFrameTimeMS (elapsedMS ?f) = Fin (6116693 / 2 ^ 19)"
    by (simp only: elapsedMS_0_5_1000 target_minus_5)
  from sleep_truncation [OF lt] obtain d ms
    where s: "f32_sub targetFrameTimeMS (elapsedMS ?f) = Fin d"
      and p: "frame_pacer (elapsedMS ?f) = Inr [SDL_Delay ms]"
      and u: "uint ms = trunc d"
    by blast
  from s s0 have "Fin d = Fin (6116693 / 2 ^ 19)" by (simp only:)
  then have "trunc d = trunc (6116693 / 2 ^ 19)" by (simp only: f32.inject)
  also have "\<dots> = 11" by (simp add: trunc_def)
  finally have "uint ms = 11" using u by (simp only:)
  with lt s0 p show ?thesis by blast
qed

end
